theory Spec2Isabelle
  imports Main
begin

section \<open>Text files and the filesystem\<close>

text \<open>
  A file is its content and its permission bits. File contents and Python strings are
  both modelled as \<^typ>\<open>string\<close>: the encoding is taken to map every character of
  the file to one character of the string and back. The filesystem maps the paths of
  regular files to files.
\<close>

type_synonym path = string

record regular_file =
  content :: string
  mode :: nat

type_synonym filesystem = "path \<rightharpoonup> regular_file"

datatype error =
    AssertionError string
  | FileNotFoundError path
  | FileExistsError path
  | SameFileError path
  | EOFError
  | SystemExit nat

definition LF :: char where
  "LF = CHR 0x0A"

definition CR :: char where
  "CR = CHR 0x0D"

text \<open>
  \<open>path.open()\<close> opens the file in text mode with \<open>newline=None\<close>: universal newlines.
  The endings \<open>\r\n\<close> and \<open>\r\<close> are translated to \<open>\n\<close> before the text reaches the
  caller.
\<close>

fun universal_newlines :: "string \<Rightarrow> string" where
  "universal_newlines [] = []"
| "universal_newlines [c] = (if c = CR then [LF] else [c])"
| "universal_newlines (c # d # cs) =
     (if c = CR then (if d = LF then LF # universal_newlines cs
                      else LF # universal_newlines (d # cs))
      else c # universal_newlines (d # cs))"

text \<open>
  \<open>for got_line in given_file\<close>: the lines of the text, each with its terminating
  \<open>\n\<close>; only the last line may lack one.
\<close>

fun iter_lines :: "string \<Rightarrow> string list" where
  "iter_lines [] = []"
| "iter_lines (c # cs) =
     (if c = LF then [c] # iter_lines cs
      else (case iter_lines cs of [] \<Rightarrow> [[c]] | l # ls \<Rightarrow> (c # l) # ls))"

text \<open>
  The filesystem operations of \<open>change_line\<close>, one constructor per call:
  \<open>tempfile.mkstemp\<close> (a new empty file with mode \<open>0o600\<close>; the name is the one
  \<open>mkstemp\<close> returns, which never names an existing file), \<open>tmp_file.write\<close>,
  \<open>shutil.copymode\<close>, \<open>path.unlink\<close> and \<open>shutil.move\<close>.
\<close>

datatype fs_op =
    Mkstemp path
  | Write path string
  | Copymode path path
  | Unlink path
  | Move path path

fun exec_op :: "fs_op \<Rightarrow> filesystem \<Rightarrow> error + filesystem" where
  "exec_op (Mkstemp t) fs =
     (case fs t of
        None \<Rightarrow> Inr (fs(t \<mapsto> \<lparr>content = [], mode = 384\<rparr>))
      | Some _ \<Rightarrow> Inl (FileExistsError t))"
| "exec_op (Write t s) fs =
     (case fs t of
        None \<Rightarrow> Inl (FileNotFoundError t)
      | Some f \<Rightarrow> Inr (fs(t \<mapsto> f\<lparr>content := content f @ s\<rparr>)))"
| "exec_op (Copymode src dst) fs =
     (case fs src of
        None \<Rightarrow> Inl (FileNotFoundError src)
      | Some f \<Rightarrow>
          (case fs dst of
             None \<Rightarrow> Inl (FileNotFoundError dst)
           | Some g \<Rightarrow> Inr (fs(dst \<mapsto> g\<lparr>mode := mode f\<rparr>))))"
| "exec_op (Unlink p) fs =
     (case fs p of
        None \<Rightarrow> Inl (FileNotFoundError p)
      | Some _ \<Rightarrow> Inr (fs(p := None)))"
| "exec_op (Move src dst) fs =
     (case fs src of
        None \<Rightarrow> Inl (FileNotFoundError src)
      | Some f \<Rightarrow> Inr ((fs(src := None))(dst \<mapsto> f)))"

text \<open>Operations run in order; the first one that raises ends the run.\<close>

fun run_ops :: "fs_op list \<Rightarrow> filesystem \<Rightarrow> error option \<times> filesystem" where
  "run_ops [] fs = (None, fs)"
| "run_ops (op # ops) fs =
     (case exec_op op fs of
        Inl e \<Rightarrow> (Some e, fs)
      | Inr fs' \<Rightarrow> run_ops ops fs')"

section \<open>The Text Editor: \<open>change_line\<close>\<close>

text \<open>
  The body of the loop: what is written to the temporary file for one line read.
\<close>

definition rewrite :: "string \<Rightarrow> string list \<Rightarrow> string \<Rightarrow> string list" where
  "rewrite line to got_line =
     (if got_line \<noteq> line @ [LF] then [got_line]
      else map (\<lambda>replacement. replacement @ [LF]) to)"

definition rewritten :: "string \<Rightarrow> string list \<Rightarrow> string \<Rightarrow> string list" where
  "rewritten line to text = concat (map (rewrite line to) (iter_lines text))"

definition change_line_ops ::
  "path \<Rightarrow> path \<Rightarrow> string \<Rightarrow> string list \<Rightarrow> string \<Rightarrow> fs_op list" where
  "change_line_ops tmp_path path line to text =
     map (Write tmp_path) (rewritten line to text)
     @ [Copymode path tmp_path, Unlink path, Move tmp_path path]"


definition change_line ::
  "path \<Rightarrow> path \<Rightarrow> string \<Rightarrow> string list \<Rightarrow> filesystem
     \<Rightarrow> error option \<times> filesystem" where
  "change_line tmp_path path line to fs =
     (case exec_op (Mkstemp tmp_path) fs of
        Inl e \<Rightarrow> (Some e, fs)
      | Inr fs1 \<Rightarrow>
          (case fs1 path of
             None \<Rightarrow> (Some (FileNotFoundError path), fs1)
           | Some given_file \<Rightarrow>
               run_ops
                 (change_line_ops tmp_path path line to
                    (universal_newlines (content given_file)))
                 fs1))"

text \<open>The lines of a file as \<open>change_line\<close> reads them.\<close>

definition text_lines :: "regular_file \<Rightarrow> string list" where
  "text_lines f = iter_lines (universal_newlines (content f))"

text \<open>The content of a line: the line without its terminating \<open>\n\<close>.\<close>

definition line_content :: "string \<Rightarrow> string" where
  "line_content l = (if l \<noteq> [] \<and> last l = LF then butlast l else l)"

text \<open>
  The shape of a list of lines: every line but the last ends with its only \<open>\n\<close>, and
  the last line is not empty.
\<close>

definition terminated :: "string \<Rightarrow> bool" where
  "terminated l = (l \<noteq> [] \<and> last l = LF \<and> LF \<notin> set (butlast l))"

fun well_lines :: "string list \<Rightarrow> bool" where
  "well_lines [] = True"
| "well_lines [l] = (l \<noteq> [] \<and> LF \<notin> set (butlast l))"
| "well_lines (l # m # ls) = (terminated l \<and> well_lines (m # ls))"

text \<open>
  The anchors of the changelog: \<open>unreleased_heading\<close> and \<open>release_heading\<close> of
  \<open>prepare_release\<close>.
\<close>

definition unreleased_heading :: string where
  "unreleased_heading = ''## unreleased''"

definition release_heading :: "string \<Rightarrow> string \<Rightarrow> string" where
  "release_heading version date = ''## '' @ version @ '' / '' @ date"

section \<open>The Version Validator\<close>

subsection \<open>Regular expressions as \<open>re\<close> matches them\<close>

text \<open>
  The constructs \<open>SEMVER_REGEX\<close> is written with: a literal character, \<open>\d\<close>, a
  character class of ranges, sequence, alternation \<open>|\<close>, the greedy repetitions
  \<open>*\<close>, \<open>+\<close> and \<open>?\<close>, a named group \<open>(?P<name>...)\<close>, and the anchors \<open>^\<close> and
  \<open>$\<close>. Under \<open>re.VERBOSE\<close> the white space of the pattern means nothing, and
  \<open>(?:...)\<close> only brackets.
\<close>

datatype regex =
    Lit char
  | Digit
  | Chars "(char \<times> char) list"
  | Seq regex regex
  | Alt regex regex
  | Star regex
  | Plus regex
  | Opt regex
  | Group string regex
  | Bol
  | Eol

definition in_ranges :: "(char \<times> char) list \<Rightarrow> char \<Rightarrow> bool" where
  "in_ranges rs c =
     list_ex (\<lambda>(lo, hi). (of_char lo :: nat) \<le> of_char c \<and> (of_char c :: nat) \<le> of_char hi) rs"

text \<open>
  \<open>\d\<close>: among the characters of \<^typ>\<open>char\<close> (code points below 256) the decimal
  digits are \<open>0\<close> to \<open>9\<close>.
\<close>

definition is_digit :: "char \<Rightarrow> bool" where
  "is_digit c = in_ranges [(CHR ''0'', CHR ''9'')] c"

text \<open>
  A state of the matcher: the groups captured so far, the position in the subject, and
  the rest of the subject from there. \<open>re_run r st\<close> lists the states in which a match
  of \<open>r\<close> from \<open>st\<close> can end, in the order the backtracking matcher tries them: the
  first alternative before the second, one more repetition before none.
\<close>

type_synonym groups = "string \<rightharpoonup> string"

type_synonym mstate = "groups \<times> nat \<times> string"

fun star_loop :: "(mstate \<Rightarrow> mstate list) \<Rightarrow> nat \<Rightarrow> mstate \<Rightarrow> mstate list" where
  "star_loop step 0 st = [st]"
| "star_loop step (Suc n) st =
     concat (map (star_loop step n)
               (filter (\<lambda>st'. length (snd (snd st')) < length (snd (snd st))) (step st)))
     @ [st]"

fun re_run :: "regex \<Rightarrow> mstate \<Rightarrow> mstate list" where
  "re_run (Lit c) (g, p, s) =
     (case s of [] \<Rightarrow> [] | x # xs \<Rightarrow> if x = c then [(g, Suc p, xs)] else [])"
| "re_run Digit (g, p, s) =
     (case s of [] \<Rightarrow> [] | x # xs \<Rightarrow> if is_digit x then [(g, Suc p, xs)] else [])"
| "re_run (Chars rs) (g, p, s) =
     (case s of [] \<Rightarrow> [] | x # xs \<Rightarrow> if in_ranges rs x then [(g, Suc p, xs)] else [])"
| "re_run (Seq a b) st = concat (map (re_run b) (re_run a st))"
| "re_run (Alt a b) st = re_run a st @ re_run b st"
| "re_run (Star r) (g, p, s) = star_loop (re_run r) (length s) (g, p, s)"
| "re_run (Plus r) st =
     concat (map (\<lambda>st'. star_loop (re_run r) (length (snd (snd st'))) st') (re_run r st))"
| "re_run (Opt r) st = re_run r st @ [st]"
| "re_run (Group name r) (g, p, s) =
     map (\<lambda>(g', p', s'). (g'(name \<mapsto> take (p' - p) s), p', s')) (re_run r (g, p, s))"
| "re_run Bol (g, p, s) = (if p = 0 then [(g, p, s)] else [])"
| "re_run Eol (g, p, s) = (if s = [] \<or> s = [LF] then [(g, p, s)] else [])"

text \<open>
  \<open>pattern.match(string)\<close>: the match starts at position 0 and need not reach the end
  of the string; the result is the first match found, or \<open>None\<close>.
\<close>

definition re_match :: "regex \<Rightarrow> string \<Rightarrow> groups option" where
  "re_match r s =
     (case re_run r (Map.empty, 0, s) of [] \<Rightarrow> None | (g, _, _) # _ \<Rightarrow> Some g)"

subsection \<open>\<open>SEMVER_REGEX\<close> and \<open>get_version\<close>\<close>

text \<open>\<open>0|[1-9]\d*\<close>\<close>

definition numeric_re :: regex where
  "numeric_re = Alt (Lit CHR ''0'') (Seq (Chars [(CHR ''1'', CHR ''9'')]) (Star Digit))"

text \<open>\<open>[a-zA-Z-]\<close> and \<open>[0-9a-zA-Z-]\<close>\<close>

definition letter_re :: regex where
  "letter_re = Chars [(CHR ''a'', CHR ''z''), (CHR ''A'', CHR ''Z''), (CHR ''-'', CHR ''-'')]"

definition alnum_re :: regex where
  "alnum_re = Chars [(CHR ''0'', CHR ''9''), (CHR ''a'', CHR ''z''), (CHR ''A'', CHR ''Z''),
                     (CHR ''-'', CHR ''-'')]"

text \<open>\<open>(?:0|[1-9]\d*|\d*[a-zA-Z-][0-9a-zA-Z-]*)\<close>\<close>

definition prerelease_id_re :: regex where
  "prerelease_id_re =
     Alt (Lit CHR ''0'')
       (Alt (Seq (Chars [(CHR ''1'', CHR ''9'')]) (Star Digit))
            (Seq (Star Digit) (Seq letter_re (Star alnum_re))))"

definition SEMVER_REGEX :: regex where
  "SEMVER_REGEX =
     Seq Bol
    (Seq (Group ''major'' numeric_re)
    (Seq (Lit CHR ''.'')
    (Seq (Group ''minor'' numeric_re)
    (Seq (Lit CHR ''.'')
    (Seq (Group ''patch'' numeric_re)
    (Seq (Opt (Seq (Lit CHR ''-'')
                   (Group ''prerelease''
                      (Seq prerelease_id_re (Star (Seq (Lit CHR ''.'') prerelease_id_re))))))
    (Seq (Opt (Seq (Lit CHR ''+'')
                   (Group ''buildmetadata''
                      (Seq (Plus alnum_re) (Star (Seq (Lit CHR ''.'') (Plus alnum_re)))))))
     Eol)))))))"

text \<open>
  \<open>get_version\<close> reads \<open>sys.argv\<close>, here its argument. A failed \<open>assert\<close> is an
  \<open>AssertionError\<close>; \<open>not match.group("buildmetadata")\<close> holds when the group took no
  part in the match or captured the empty string.
\<close>

definition get_version :: "string list \<Rightarrow> error + string" where
  "get_version argv =
     (if length argv \<noteq> 2
      then Inl (AssertionError ''Got wrong number of arguments, expected 1.'')
      else
        (case re_match SEMVER_REGEX (argv ! 1) of
           None \<Rightarrow> Inl (AssertionError ''Given version is not a valid semver.'')
         | Some m \<Rightarrow>
             (case m ''buildmetadata'' of
                None \<Rightarrow> Inr (argv ! 1)
              | Some b \<Rightarrow>
                  if b \<noteq> []
                  then Inl (AssertionError ''Shouldn't have build metadata in version.'')
                  else Inr (argv ! 1))))"

subsection \<open>Semantic versions, after the words of the specification\<close>

text \<open>
  The grammar as the specification words it: three dot-separated non-negative integers
  without leading zeros (except the literal \<open>0\<close>), an optional \<open>-\<close>-prefixed prerelease
  label of dot-separated alphanumeric or hyphen identifiers (numeric identifiers without
  leading zeros unless exactly \<open>0\<close>), and an optional \<open>+\<close>-prefixed build-metadata label
  of dot-separated alphanumeric or hyphen identifiers.
\<close>

fun split_on :: "char \<Rightarrow> string \<Rightarrow> string list" where
  "split_on c [] = [[]]"
| "split_on c (x # xs) =
     (if x = c then [] # split_on c xs
      else (case split_on c xs of [] \<Rightarrow> [[x]] | w # ws \<Rightarrow> (x # w) # ws))"

definition is_alnum_hyphen :: "char \<Rightarrow> bool" where
  "is_alnum_hyphen c =
     (c \<in> set ''0123456789abcdefghijklmnopqrstuvwxyzABCDEFGHIJKLMNOPQRSTUVWXYZ-'')"

definition is_numeric :: "string \<Rightarrow> bool" where
  "is_numeric n =
     (n \<noteq> [] \<and> list_all (\<lambda>c. c \<in> set ''0123456789'') n \<and> (n = ''0'' \<or> hd n \<noteq> CHR ''0''))"

definition is_prerelease_identifier :: "string \<Rightarrow> bool" where
  "is_prerelease_identifier i =
     (i \<noteq> [] \<and> list_all is_alnum_hyphen i
      \<and> (if list_all (\<lambda>c. c \<in> set ''0123456789'') i then is_numeric i else True))"

definition is_build_identifier :: "string \<Rightarrow> bool" where
  "is_build_identifier i = (i \<noteq> [] \<and> list_all is_alnum_hyphen i)"

definition is_semver :: "string \<Rightarrow> bool" where
  "is_semver v =
     (let before_build = takeWhile (\<lambda>c. c \<noteq> CHR ''+'') v;
          build = dropWhile (\<lambda>c. c \<noteq> CHR ''+'') v;
          core = takeWhile (\<lambda>c. c \<noteq> CHR ''-'') before_build;
          prerelease = dropWhile (\<lambda>c. c \<noteq> CHR ''-'') before_build
      in (case split_on CHR ''.'' core of
            [major, minor, patch] \<Rightarrow> is_numeric major \<and> is_numeric minor \<and> is_numeric patch
          | _ \<Rightarrow> False)
         \<and> (prerelease = []
              \<or> list_all is_prerelease_identifier (split_on CHR ''.'' (tl prerelease)))
         \<and> (build = [] \<or> list_all is_build_identifier (split_on CHR ''.'' (tl build))))"

definition has_build_metadata :: "string \<Rightarrow> bool" where
  "has_build_metadata v = (CHR ''+'' \<in> set v)"

text \<open>Python's \<open>c.join(parts)\<close>, the inverse of \<open>split_on\<close>.\<close>

fun join :: "char \<Rightarrow> string list \<Rightarrow> string" where
  "join c [] = []"
| "join c [x] = x"
| "join c (x # y # ys) = x @ c # join c (y # ys)"

subsection \<open>The words of an anchor-free regular expression\<close>

text \<open>
  The strings a regular expression without anchors matches in full. A repetition is
  built from non-empty steps, as the matcher takes them.
\<close>

inductive matches :: "regex \<Rightarrow> string \<Rightarrow> bool" where
  m_Lit: "matches (Lit c) [c]"
| m_Digit: "is_digit c \<Longrightarrow> matches Digit [c]"
| m_Chars: "in_ranges rs c \<Longrightarrow> matches (Chars rs) [c]"
| m_Seq: "matches a u \<Longrightarrow> matches b v \<Longrightarrow> matches (Seq a b) (u @ v)"
| m_AltL: "matches a u \<Longrightarrow> matches (Alt a b) u"
| m_AltR: "matches b u \<Longrightarrow> matches (Alt a b) u"
| m_StarNil: "matches (Star r) []"
| m_StarStep: "matches r u \<Longrightarrow> u \<noteq> [] \<Longrightarrow> matches (Star r) v \<Longrightarrow> matches (Star r) (u @ v)"
| m_Plus: "matches r u \<Longrightarrow> matches (Star r) v \<Longrightarrow> matches (Plus r) (u @ v)"
| m_OptNone: "matches (Opt r) []"
| m_OptSome: "matches r u \<Longrightarrow> matches (Opt r) u"
| m_Group: "matches r u \<Longrightarrow> matches (Group name r) u"

text \<open>The names of the groups of a regular expression.\<close>

fun group_names :: "regex \<Rightarrow> string set" where
  "group_names (Seq a b) = group_names a \<union> group_names b"
| "group_names (Alt a b) = group_names a \<union> group_names b"
| "group_names (Star r) = group_names r"
| "group_names (Plus r) = group_names r"
| "group_names (Opt r) = group_names r"
| "group_names (Group name r) = insert name (group_names r)"
| "group_names _ = {}"

text \<open>
  \<open>reaches r p s\<close>: from position \<open>p\<close> with the rest \<open>s\<close>, whatever the groups, the
  matcher finds a match of \<open>r\<close>. \<open>guarded c name r\<close>: a match of \<open>r\<close> changes the group
  \<open>name\<close> only when it consumes the character \<open>c\<close>.
\<close>

definition reaches :: "regex \<Rightarrow> nat \<Rightarrow> string \<Rightarrow> bool" where
  "reaches r p s = (\<forall>g. re_run r (g, p, s) \<noteq> [])"

definition guarded :: "char \<Rightarrow> string \<Rightarrow> regex \<Rightarrow> bool" where
  "guarded c name r =
     (\<forall>g p s g' p' s'. (g', p', s') \<in> set (re_run r (g, p, s)) \<longrightarrow>
        (\<exists>w. s = w @ s' \<and> (g' name = g name \<or> c \<in> set w)))"

section \<open>The release process\<close>

subsection \<open>The world the script runs in\<close>

text \<open>
  \<open>subprocess.run(args, cwd=cwd, capture_output=True)\<close> yields a return code and the
  two captured streams. What the version-control collaborator answers is not decided by
  the script: the world holds it as a function \<open>git\<close> of the effects performed so far,
  the working directory and the arguments, so that a statement about every world is a
  statement about every behaviour of git.

  The effects themselves are recorded in \<open>events\<close>, oldest first: every command run,
  every call of \<open>change_line\<close> and of \<open>shutil.copyfile\<close>, and the prompt. Console output
  is not modelled.
\<close>

record proc_result =
  returncode :: int
  stdout :: string
  stderr :: string

datatype event =
    Run path "string list"
  | ChangeLine path string "string list"
  | CopyFile path path
  | Input string

record world =
  files :: filesystem
  events :: "event list"
  git :: "event list \<Rightarrow> path \<Rightarrow> string list \<Rightarrow> proc_result"
  argv :: "string list"
  cwd :: path
  tmp_name :: path
  timestamp :: int
  today :: string
  stdin :: "string list"

text \<open>
  A step of the script takes the world and returns a value or the exception raised,
  with the world it leaves.
\<close>

type_synonym 'a action = "world \<Rightarrow> (error + 'a) \<times> world"

definition succeed :: "'a \<Rightarrow> 'a action" where
  "succeed x w = (Inr x, w)"

definition raise :: "error \<Rightarrow> 'a action" where
  "raise e w = (Inl e, w)"

definition and_then :: "'a action \<Rightarrow> ('a \<Rightarrow> 'b action) \<Rightarrow> 'b action" where
  "and_then m f w = (case m w of (Inl e, w') \<Rightarrow> (Inl e, w') | (Inr x, w') \<Rightarrow> f x w')"

subsection \<open>Helpers\<close>

text \<open>
  \<open>task\<close>: an \<open>AssertionError\<close> raised in the body becomes \<open>sys.exit(1)\<close>; every other
  exception passes through.
\<close>

definition task :: "string \<Rightarrow> 'a action \<Rightarrow> 'a action" where
  "task message body w =
     (case body w of
        (Inl (AssertionError e), w') \<Rightarrow> (Inl (SystemExit 1), w')
      | r \<Rightarrow> r)"

fun str_nat :: "nat \<Rightarrow> string" where
  "str_nat n =
     (if n < 10 then [''0123456789'' ! n]
      else str_nat (n div 10) @ [''0123456789'' ! (n mod 10)])"

declare str_nat.simps [simp del]

definition str_int :: "int \<Rightarrow> string" where
  "str_int i = (if i < 0 then ''-'' @ str_nat (nat (- i)) else str_nat (nat i))"

definition rstrip_newlines :: "string \<Rightarrow> string" where
  "rstrip_newlines s = rev (dropWhile (\<lambda>c. c = LF) (rev s))"

text \<open>
  \<open>run\<close>: the output without its trailing newlines when the command returns 0, and a
  failed \<open>assert\<close> otherwise.
\<close>

definition run :: "string list \<Rightarrow> path \<Rightarrow> string action" where
  "run args dir w =
     (let result = git w (events w) dir args;
          w' = w\<lparr>events := events w @ [Run dir args]\<rparr>
      in if returncode result = 0 then (Inr (rstrip_newlines (stdout result)), w')
         else (Inl (AssertionError
                 (''Exited with non-zero exit code: '' @ str_int (returncode result))), w'))"

text \<open>\<open>change_line\<close> on the files of the world, with the name \<open>mkstemp\<close> returns.\<close>

definition change_line_io :: "path \<Rightarrow> string \<Rightarrow> string list \<Rightarrow> unit action" where
  "change_line_io p line to w =
     (case change_line (tmp_name w) p line to (files w) of
        (None, fs) \<Rightarrow>
          (Inr (), w\<lparr>files := fs, events := events w @ [ChangeLine p line to]\<rparr>)
      | (Some e, fs) \<Rightarrow>
          (Inl e, w\<lparr>files := fs, events := events w @ [ChangeLine p line to]\<rparr>))"

text \<open>
  \<open>shutil.copyfile\<close>: the content is copied; an existing destination keeps its mode
  and a new one gets \<open>0o644\<close>. Directories are taken to exist.
\<close>

definition copyfile :: "path \<Rightarrow> path \<Rightarrow> unit action" where
  "copyfile src dst w =
     (let w' = w\<lparr>events := events w @ [CopyFile src dst]\<rparr>
      in if src = dst then (Inl (SameFileError src), w')
         else
           (case files w src of
              None \<Rightarrow> (Inl (FileNotFoundError src), w')
            | Some f \<Rightarrow>
                (Inr (),
                 w'\<lparr>files := (files w)(dst \<mapsto>
                    \<lparr>content = content f,
                     mode = (case files w dst of None \<Rightarrow> 420 | Some g \<Rightarrow> mode g)\<rparr>)\<rparr>)))"

text \<open>\<open>input(prompt)\<close>: the next line of standard input, \<open>EOFError\<close> when there is none.\<close>

definition input :: "string \<Rightarrow> string action" where
  "input prompt w =
     (let w' = w\<lparr>events := events w @ [Input prompt]\<rparr>
      in case stdin w of
           [] \<Rightarrow> (Inl EOFError, w')
         | l # ls \<Rightarrow> (Inr l, w'\<lparr>stdin := ls\<rparr>))"

definition git_commit :: "string \<Rightarrow> string list \<Rightarrow> path \<Rightarrow> unit action" where
  "git_commit message paths repo =
     and_then (run ([''git'', ''add''] @ paths) repo) (\<lambda>_.
     and_then (run [''git'', ''commit'', ''-m'', message] repo) (\<lambda>_.
     succeed ()))"

text \<open>
  Paths: \<open>p / name\<close> and \<open>p.parent\<close> of \<open>pathlib\<close>, for an absolute path and a relative
  name.
\<close>

definition joinpath :: "path \<Rightarrow> string \<Rightarrow> path" where
  "joinpath p name = (if p = ''/'' then p @ name else p @ ''/'' @ name)"

definition parent :: "path \<Rightarrow> path" where
  "parent p =
     (let d = rev (dropWhile (\<lambda>c. c \<noteq> CHR ''/'') (rev p))
      in if length d \<le> 1 then ''/'' else butlast d)"

subsection \<open>The Repository Inspector\<close>

definition check_repo_state :: "path \<Rightarrow> string \<Rightarrow> unit action" where
  "check_repo_state repo name =
     and_then (run [''git'', ''config'', ''--get'', ''remote.upstream.url''] repo) (\<lambda>upstream.
     if upstream \<noteq> ''git@github.com:toml-lang/'' @ name @ ''.git''
     then raise (AssertionError (''Got incorrect upstream repo: '' @ upstream))
     else
     and_then (run [''git'', ''branch'', ''--show-current''] repo) (\<lambda>current_branch.
     if current_branch \<noteq> ''main'' \<and> current_branch \<noteq> ''master''
     then raise (AssertionError current_branch)
     else
     and_then (run [''git'', ''status'', ''--porcelain''] repo) (\<lambda>working_directory_state.
     if working_directory_state \<noteq> []
     then raise (AssertionError (''Dirty working directory\<newline>'' @ working_directory_state))
     else
     task ''Checking against remote''
       (and_then (run [''git'', ''remote'', ''update'', ''upstream''] repo) (\<lambda>_.
        and_then (run [''git'', ''rev-list'',
                       current_branch @ ''..upstream/'' @ current_branch,
                       ''--left-right''] repo) (\<lambda>deviation.
        if deviation \<noteq> []
        then raise (AssertionError (''Local branch deviates from upstream\<newline>'' @ deviation))
        else succeed ()))))))"

text \<open>\<open>Path(".").resolve()\<close>: the absolute path of the working directory.\<close>

definition resolve_cwd :: "path action" where
  "resolve_cwd w = (Inr (cwd w), w)"

definition get_repositories :: "(path \<times> path) action" where
  "get_repositories =
     and_then resolve_cwd (\<lambda>spec_repo.
     (let website_repo = joinpath (parent spec_repo) ''toml.io''
      in and_then
           (task ''Checking repositories''
              (and_then (task ''toml'' (check_repo_state spec_repo ''toml'')) (\<lambda>_.
               task ''toml.io'' (check_repo_state website_repo ''toml.io''))))
           (\<lambda>_. succeed (website_repo, spec_repo))))"

subsection \<open>The Release Preparer\<close>

text \<open>
  The steps of \<open>prepare_release\<close>, given the two values it reads from the clock: the
  name of the backup tag and the date of the release heading.
\<close>

definition prepare_release_steps ::
  "string \<Rightarrow> path \<Rightarrow> path \<Rightarrow> string \<Rightarrow> string \<Rightarrow> unit action" where
  "prepare_release_steps version spec_repo website_repo backup_tag date =
     (let release_message = ''Release v'' @ version;
          changelog = joinpath spec_repo ''CHANGELOG.md'';
          source_md = joinpath spec_repo ''toml.md'';
          destination_md =
            joinpath (joinpath (joinpath website_repo ''specs'') ''en'') (''v'' @ version @ ''.md'');
          new_heading = ''TOML v'' @ version
      in
        and_then (run [''git'', ''tag'', ''-m'', ''backup'', backup_tag] spec_repo) (\<lambda>_.
        and_then (run [''git'', ''tag'', ''-m'', ''backup'', backup_tag] website_repo) (\<lambda>_.
        and_then (task ''Updating changelog for release''
          (and_then (change_line_io changelog unreleased_heading
                       [release_heading version date]) (\<lambda>_.
           git_commit release_message [changelog] spec_repo))) (\<lambda>_.
        and_then (task ''Creating release tag''
          (run [''git'', ''tag'', ''-m'', release_message, version] spec_repo)) (\<lambda>_.
        and_then (task ''Updating changelog for development''
          (and_then (change_line_io changelog (release_heading version date)
                       [unreleased_heading, [], ''Nothing.'', [],
                        release_heading version date]) (\<lambda>_.
           git_commit ''Bump for development'' [changelog] spec_repo))) (\<lambda>_.
        and_then (task ''Copy to website'' (copyfile source_md destination_md)) (\<lambda>_.
        and_then (task ''Update title''
          (and_then (change_line_io destination_md ''TOML'' [new_heading]) (\<lambda>_.
           change_line_io destination_md ''===='' [replicate (length new_heading) CHR ''=''])))
          (\<lambda>_.
        task ''Commit new version''
          (git_commit release_message [destination_md] website_repo)))))))))"

definition prepare_release :: "string \<Rightarrow> path \<Rightarrow> path \<Rightarrow> unit action" where
  "prepare_release version spec_repo website_repo w =
     prepare_release_steps version spec_repo website_repo
       (''backup/'' @ str_int (timestamp w)) (today w) w"

subsection \<open>The Release Publisher\<close>

definition push_release :: "string \<Rightarrow> path \<Rightarrow> path \<Rightarrow> unit action" where
  "push_release version spec_repo website_repo =
     and_then (task ''specs repository''
       (and_then (run [''git'', ''push'', ''origin'', ''HEAD'', version] spec_repo) (\<lambda>_.
        run [''git'', ''push'', ''upstream'', ''HEAD'', version] spec_repo))) (\<lambda>_.
     and_then (task ''website repository''
       (and_then (run [''git'', ''push'', ''origin'', ''HEAD''] website_repo) (\<lambda>_.
        run [''git'', ''push'', ''upstream'', ''HEAD''] website_repo))) (\<lambda>_.
     succeed ()))"

subsection \<open>The Orchestrator\<close>

definition main :: "unit action" where
  "main =
     and_then (\<lambda>w. (get_version (argv w), w)) (\<lambda>version.
     and_then get_repositories (\<lambda>(website_repo, spec_repo).
     and_then (task ''Preparing release''
       (prepare_release version spec_repo website_repo)) (\<lambda>_.
     and_then (input ''Press enter when ready.'') (\<lambda>_.
     task ''Publishing release'' (push_release version spec_repo website_repo)))))"

text \<open>
  The exit status of the process: 0 when \<open>main\<close> returns, \<open>n\<close> after \<open>sys.exit(n)\<close>,
  and 1 after an uncaught exception.
\<close>

definition exit_status :: "error + unit \<Rightarrow> nat" where
  "exit_status r = (case r of Inr _ \<Rightarrow> 0 | Inl (SystemExit n) \<Rightarrow> n | Inl _ \<Rightarrow> 1)"

subsection \<open>Events\<close>

text \<open>
  The commands of the Repository Inspector, and the effects that change a file, stage,
  commit, tag or push. \<open>pushed\<close> lists what a push command pushes: the repository, the
  remote and the ref, one entry per ref.
\<close>

fun is_inspection :: "event \<Rightarrow> bool" where
  "is_inspection (Run dir args) =
     (args = [''git'', ''config'', ''--get'', ''remote.upstream.url'']
      \<or> args = [''git'', ''branch'', ''--show-current'']
      \<or> args = [''git'', ''status'', ''--porcelain'']
      \<or> args = [''git'', ''remote'', ''update'', ''upstream'']
      \<or> (length args = 4 \<and> take 2 args = [''git'', ''rev-list''] \<and> args ! 3 = ''--left-right''))"
| "is_inspection _ = False"

fun mutating :: "event \<Rightarrow> bool" where
  "mutating (Run dir args) =
     (take 2 args = [''git'', ''tag''] \<or> take 2 args = [''git'', ''add'']
      \<or> take 2 args = [''git'', ''commit''] \<or> take 2 args = [''git'', ''push''])"
| "mutating (ChangeLine p line to) = True"
| "mutating (CopyFile src dst) = True"
| "mutating (Input prompt) = False"

fun pushed :: "event \<Rightarrow> (path \<times> string \<times> string) list" where
  "pushed (Run dir args) =
     (if take 2 args = [''git'', ''push''] \<and> 3 \<le> length args
      then map (\<lambda>ref. (dir, args ! 2, ref)) (drop 3 args)
      else [])"
| "pushed _ = []"

text \<open>
  \<open>emits m evs\<close>: the step \<open>m\<close> performs the effects \<open>evs\<close> in order when it returns,
  and a first part of them when it raises. \<open>inspects m\<close>: the step leaves the files as
  they are, runs commands of the Repository Inspector only, and what it raises ends the
  process with status 1.
\<close>

definition emits :: "'a action \<Rightarrow> event list \<Rightarrow> bool" where
  "emits m evs =
     (\<forall>w. \<exists>k. events (snd (m w)) = events w @ take k evs
              \<and> (\<forall>x. fst (m w) = Inr x \<longrightarrow> length evs \<le> k))"

definition inspects :: "'a action \<Rightarrow> bool" where
  "inspects m =
     (\<forall>w. files (snd (m w)) = files w
          \<and> (\<exists>evs. events (snd (m w)) = events w @ evs \<and> list_all is_inspection evs)
          \<and> (\<forall>e. fst (m w) = Inl e \<longrightarrow> exit_status (Inl e) = 1))"

subsection \<open>git, as far as the Repository Inspector asks\<close>

text \<open>
  A repository as the inspector sees it: the URL of the remote \<open>upstream\<close>, the current
  branch, the output of \<open>git status --porcelain\<close>, and for every ref the commits
  reachable from it. After git's documentation of revision ranges, \<open>r1..r2\<close> names the
  commits reachable from \<open>r2\<close> and not from \<open>r1\<close>, and \<open>r1...r2\<close> the symmetric
  difference: the commits reachable from one of the two and not from both. With
  \<open>--left-right\<close>, \<open>git rev-list\<close> marks a commit of the left side with \<open><\<close> and one of
  the right side with \<open>>\<close>. Every other command is taken to succeed without output.
\<close>

type_synonym commit = string

record repository =
  upstream_url :: string
  current_branch :: string
  porcelain_status :: string
  reachable :: "string \<rightharpoonup> commit list"

fun split_range :: "string \<Rightarrow> string \<Rightarrow> (string \<times> bool \<times> string) option" where
  "split_range left [] = None"
| "split_range left [c] = None"
| "split_range left (c # d # rest) =
     (if c = CHR ''.'' \<and> d = CHR ''.''
      then (case rest of
              [] \<Rightarrow> Some (left, False, rest)
            | e # rest' \<Rightarrow>
                if e = CHR ''.'' then Some (left, True, rest') else Some (left, False, rest))
      else split_range (left @ [c]) (d # rest))"

definition rev_list :: "repository \<Rightarrow> string \<Rightarrow> string list option" where
  "rev_list repo revs =
     (case split_range [] revs of
        None \<Rightarrow> None
      | Some (r1, symmetric, r2) \<Rightarrow>
          (case (reachable repo r1, reachable repo r2) of
             (Some h1, Some h2) \<Rightarrow>
               Some ((if symmetric
                      then map (\<lambda>c. ''<'' @ c) (filter (\<lambda>c. c \<notin> set h2) h1)
                      else [])
                     @ map (\<lambda>c. ''>'' @ c) (filter (\<lambda>c. c \<notin> set h1) h2))
           | _ \<Rightarrow> None))"

definition completed :: "string \<Rightarrow> proc_result" where
  "completed out = \<lparr>returncode = 0, stdout = out, stderr = []\<rparr>"

definition failed :: "int \<Rightarrow> string \<Rightarrow> proc_result" where
  "failed rc err = \<lparr>returncode = rc, stdout = [], stderr = err\<rparr>"

definition git_of :: "(path \<Rightarrow> repository) \<Rightarrow> event list \<Rightarrow> path \<Rightarrow> string list \<Rightarrow> proc_result" where
  "git_of repos history dir args =
     (let repo = repos dir in
      if args = [''git'', ''config'', ''--get'', ''remote.upstream.url'']
        then completed (upstream_url repo @ ''\<newline>'')
      else if args = [''git'', ''branch'', ''--show-current'']
        then completed (current_branch repo @ ''\<newline>'')
      else if args = [''git'', ''status'', ''--porcelain'']
        then completed (porcelain_status repo)
      else if args = [''git'', ''remote'', ''update'', ''upstream'']
        then completed ''Fetching upstream\<newline>''
      else if length args = 4 \<and> take 2 args = [''git'', ''rev-list''] \<and> args ! 3 = ''--left-right''
        then (case rev_list repo (args ! 2) of
                None \<Rightarrow> failed 128 ''fatal: bad revision\<newline>''
              | Some commits \<Rightarrow> completed (concat (map (\<lambda>l. l @ ''\<newline>'') commits)))
      else completed [])"

subsection \<open>Example worlds\<close>

text \<open>
  A clean repository on \<open>main\<close>, level with its upstream; the same with a local commit
  that upstream does not have; and the website repository with a modified file.
\<close>

definition clean_repo :: "string \<Rightarrow> repository" where
  "clean_repo name =
     \<lparr>upstream_url = ''git@github.com:toml-lang/'' @ name @ ''.git'',
      current_branch = ''main'',
      porcelain_status = [],
      reachable = [''main'' \<mapsto> [''c1''], ''upstream/main'' \<mapsto> [''c1'']]\<rparr>"

definition ahead_repo :: repository where
  "ahead_repo = (clean_repo ''toml'')
     \<lparr>reachable := [''main'' \<mapsto> [''c2'', ''c1''], ''upstream/main'' \<mapsto> [''c1'']]\<rparr>"

definition dirty_repo :: repository where
  "dirty_repo = (clean_repo ''toml.io'')\<lparr>porcelain_status := '' M index.md\<newline>''\<rparr>"

text \<open>
  The worlds: version 1.0.0 is asked for in \<open>/home/u/toml\<close>, where the changelog and
  the specification are. In \<open>ready_world\<close> every command succeeds; in the other two
  git answers from the repositories above.
\<close>

definition ready_world :: world where
  "ready_world =
     \<lparr>files = [''/home/u/toml/CHANGELOG.md'' \<mapsto>
                 \<lparr>content = ''# Changes\<newline>\<newline>## unreleased\<newline>\<newline>* New.\<newline>'', mode = 420\<rparr>,
               ''/home/u/toml/toml.md'' \<mapsto>
                 \<lparr>content = ''TOML\<newline>====\<newline>\<newline>Tom's Language.\<newline>'', mode = 420\<rparr>],
      events = [],
      git = (\<lambda>history dir args. completed []),
      argv = [''release.py'', ''1.0.0''],
      cwd = ''/home/u/toml'',
      tmp_name = ''/tmp/tmpab12'',
      timestamp = 1600000000,
      today = ''2020-09-13'',
      stdin = [[]]\<rparr>"

definition ahead_world :: world where
  "ahead_world =
     ready_world\<lparr>git := git_of (\<lambda>dir. if dir = ''/home/u/toml'' then ahead_repo
                                      else clean_repo ''toml.io'')\<rparr>"

definition dirty_website_world :: world where
  "dirty_website_world =
     ready_world\<lparr>git := git_of (\<lambda>dir. if dir = ''/home/u/toml'' then clean_repo ''toml''
                                      else dirty_repo)\<rparr>"

section \<open>Properties of the Text Editor\<close>

subsection \<open>Lines\<close>

lemma concat_iter_lines: "concat (iter_lines s) = s"
  by (induction s) (auto split: list.splits)

lemma iter_lines_nonempty: "l \<in> set (iter_lines s) \<Longrightarrow> l \<noteq> []"
  by (induction s arbitrary: l) (auto split: list.splits if_splits)

lemma CR_notin_universal_newlines: "CR \<notin> set (universal_newlines s)"
  by (induction s rule: universal_newlines.induct) (auto simp: LF_def CR_def)

lemma universal_newlines_id: "CR \<notin> set s \<Longrightarrow> universal_newlines s = s"
  by (induction s rule: universal_newlines.induct) auto

lemma run_ops_writes:
  "fs t = Some f \<Longrightarrow>
   run_ops (map (Write t) ws @ ops) fs
     = run_ops ops (fs(t \<mapsto> f\<lparr>content := content f @ concat ws\<rparr>))"
proof (induction ws arbitrary: fs f)
  case Nil
  then show ?case by (simp add: fun_upd_idem)
next
  case (Cons w ws)
  let ?g = "f\<lparr>content := content f @ w\<rparr>"
  have step: "run_ops (map (Write t) (w # ws) @ ops) fs
      = run_ops (map (Write t) ws @ ops) (fs(t \<mapsto> ?g))"
    using Cons.prems by simp
  have ih: "run_ops (map (Write t) ws @ ops) (fs(t \<mapsto> ?g))
      = run_ops ops ((fs(t \<mapsto> ?g))(t \<mapsto> ?g\<lparr>content := content ?g @ concat ws\<rparr>))"
    by (rule Cons.IH) simp
  have e: "(fs(t \<mapsto> ?g))(t \<mapsto> ?g\<lparr>content := content ?g @ concat ws\<rparr>)
      = fs(t \<mapsto> f\<lparr>content := content f @ concat (w # ws)\<rparr>)"
    by simp
  show ?case by (simp only: step ih e)
qed

lemma change_line_result:
  assumes "fs path = Some f" and "fs tmp_path = None"
  shows "change_line tmp_path path line to fs
    = (None, fs(path \<mapsto> \<lparr>content = concat (rewritten line to (universal_newlines (content f))),
                          mode = mode f\<rparr>))"
proof -
  have ne: "tmp_path \<noteq> path" using assms by auto
  let ?fs1 = "fs(tmp_path \<mapsto> \<lparr>content = [], mode = 384\<rparr>)"
  let ?ws = "rewritten line to (universal_newlines (content f))"
  have "change_line tmp_path path line to fs
      = run_ops (map (Write tmp_path) ?ws @ [Copymode path tmp_path, Unlink path, Move tmp_path path]) ?fs1"
    using assms ne by (simp add: change_line_def change_line_ops_def)
  also have "\<dots> = run_ops [Copymode path tmp_path, Unlink path, Move tmp_path path]
      (?fs1(tmp_path \<mapsto> \<lparr>content = [], mode = 384\<rparr>\<lparr>content := content \<lparr>content = [], mode = 384\<rparr> @ concat ?ws\<rparr>))"
    by (rule run_ops_writes) simp
  also have "\<dots> = (None, fs(path \<mapsto> \<lparr>content = concat ?ws, mode = mode f\<rparr>))"
    using assms ne by (auto simp: fun_upd_twist intro!: ext)
  finally show ?thesis .
qed

lemma iter_lines_no_LF_if: "LF \<notin> set u \<Longrightarrow> iter_lines u = (if u = [] then [] else [u])"
  by (induction u) (auto split: list.splits)

lemma iter_lines_no_LF: "LF \<notin> set u \<Longrightarrow> u \<noteq> [] \<Longrightarrow> iter_lines u = [u]"
  by (simp add: iter_lines_no_LF_if)

lemma iter_lines_terminated:
  "LF \<notin> set u \<Longrightarrow> iter_lines (u @ LF # s) = (u @ [LF]) # iter_lines s"
  by (induction u) (auto split: list.splits)

lemma terminated_snoc: "terminated l \<Longrightarrow> \<exists>u. l = u @ [LF] \<and> LF \<notin> set u"
  unfolding terminated_def by (metis append_butlast_last_id)

lemma iter_lines_last: "l \<noteq> [] \<Longrightarrow> LF \<notin> set (butlast l) \<Longrightarrow> iter_lines l = [l]"
proof (cases l rule: rev_cases)
  case Nil
  then show "l \<noteq> [] \<Longrightarrow> ?thesis" by simp
next
  case (snoc u c)
  assume "LF \<notin> set (butlast l)"
  then have u: "LF \<notin> set u" using snoc by simp
  show ?thesis
  proof (cases rule: case_split[of "c = LF"])
    case True
    then show ?thesis using iter_lines_terminated[OF u, of "[]"] snoc by simp
  next
    case False
    then show ?thesis using iter_lines_no_LF[of l] u snoc by simp
  qed
qed

lemma iter_lines_concat: "well_lines ls \<Longrightarrow> iter_lines (concat ls) = ls"
proof (induction ls rule: well_lines.induct)
  case 1
  then show ?case by simp
next
  case (2 l)
  then show ?case by (simp add: iter_lines_last)
next
  case (3 l m ls)
  then obtain u where u: "l = u @ [LF]" "LF \<notin> set u"
    using terminated_snoc by auto
  have "iter_lines (concat (l # m # ls)) = iter_lines (u @ LF # concat (m # ls))"
    using u by simp
  also have "\<dots> = l # iter_lines (concat (m # ls))"
    using u(1) iter_lines_terminated[OF u(2)] by simp
  finally show ?case using 3 by simp
qed

lemma well_lines_iter_lines: "well_lines (iter_lines s)"
proof (induction s)
  case Nil
  then show ?case by simp
next
  case (Cons c s)
  show ?case
  proof (cases rule: list.exhaust[of "iter_lines s"])
    case Nil
    then show ?thesis by (simp add: terminated_def)
  next
    case (Cons l ls)
    then show ?thesis using Cons.IH
      by (cases ls) (auto simp: terminated_def)
  qed
qed

lemma terminated_well_append:
  "\<forall>x\<in>set xs. terminated x \<Longrightarrow> well_lines ys \<Longrightarrow> well_lines (xs @ ys)"
proof (induction xs)
  case Nil
  then show ?case by simp
next
  case (Cons x xs)
  then have w: "well_lines (xs @ ys)" and t: "terminated x" by auto
  show ?case
  proof (cases rule: list.exhaust[of "xs @ ys"])
    case Nil
    then show ?thesis using t by (simp add: terminated_def)
  next
    case (Cons z zs)
    then have "x # xs @ ys = x # z # zs" by simp
    then show ?thesis using t w Cons by simp
  qed
qed

lemma terminated_replacement: "LF \<notin> set r \<Longrightarrow> terminated (r @ [LF])"
  by (simp add: terminated_def)

lemma well_lines_rewritten:
  assumes "\<forall>r\<in>set to. LF \<notin> set r"
  shows "well_lines ls \<Longrightarrow> well_lines (concat (map (rewrite line to) ls))"
proof (induction ls rule: well_lines.induct)
  case 1
  then show ?case by simp
next
  case (2 l)
  have "well_lines (map (\<lambda>r. r @ [LF]) to @ [])"
    by (rule terminated_well_append) (use assms in \<open>auto simp: terminated_replacement\<close>)
  then show ?case using 2 by (simp add: rewrite_def)
next
  case (3 l m ls)
  then have IH: "well_lines (concat (map (rewrite line to) (m # ls)))" by simp
  have "\<forall>x\<in>set (rewrite line to l). terminated x"
    using 3(2) assms by (auto simp: rewrite_def terminated_replacement)
  then have "well_lines (rewrite line to l @ concat (map (rewrite line to) (m # ls)))"
    using IH by (rule terminated_well_append)
  then show ?case by simp
qed

lemma CR_notin_rewritten:
  assumes "\<forall>r\<in>set to. CR \<notin> set r" and "CR \<notin> set s"
  shows "CR \<notin> set (concat (rewritten line to s))"
proof -
  have "\<And>l. l \<in> set (iter_lines s) \<Longrightarrow> CR \<notin> set l"
    using assms(2) concat_iter_lines[of s] by (metis UN_I set_concat)
  then show ?thesis using assms(1)
    by (auto simp: rewritten_def rewrite_def CR_def LF_def split: if_splits)
qed

lemma reread_rewritten:
  assumes "\<forall>r\<in>set to. LF \<notin> set r \<and> CR \<notin> set r"
  shows "iter_lines (universal_newlines (concat (rewritten line to (universal_newlines s))))
       = rewritten line to (universal_newlines s)"
proof -
  have "CR \<notin> set (concat (rewritten line to (universal_newlines s)))"
    using assms by (intro CR_notin_rewritten) (auto simp: CR_notin_universal_newlines)
  then have "universal_newlines (concat (rewritten line to (universal_newlines s)))
       = concat (rewritten line to (universal_newlines s))"
    by (rule universal_newlines_id)
  moreover have "well_lines (rewritten line to (universal_newlines s))"
    unfolding rewritten_def using assms
    by (intro well_lines_rewritten well_lines_iter_lines) auto
  ultimately show ?thesis by (simp add: iter_lines_concat)
qed

lemma rewritten_no_match:
  "line @ [LF] \<notin> set (iter_lines s) \<Longrightarrow> rewritten line to s = iter_lines s"
proof -
  assume a: "line @ [LF] \<notin> set (iter_lines s)"
  have "map (rewrite line to) (iter_lines s) = map (\<lambda>l. [l]) (iter_lines s)"
    using a by (intro map_cong) (auto simp: rewrite_def)
  then have "rewritten line to s = concat (map (\<lambda>l. [l]) (iter_lines s))"
    by (simp only: rewritten_def)
  also have "\<dots> = iter_lines s"
    by (induction \<open>iter_lines s\<close>) simp_all
  finally show ?thesis .
qed

lemma rewritten_lines:
  "rewritten line to s
     = concat (map (\<lambda>l. if l = line @ [LF] then map (\<lambda>r. r @ [LF]) to else [l]) (iter_lines s))"
proof -
  have "rewrite line to = (\<lambda>l. if l = line @ [LF] then map (\<lambda>r. r @ [LF]) to else [l])"
    by (auto simp: rewrite_def fun_eq_iff)
  then show ?thesis by (simp add: rewritten_def)
qed

lemma change_line_no_match:
  assumes "fs path = Some f" and "fs tmp_path = None"
    and "CR \<notin> set (content f)"
    and "line @ [LF] \<notin> set (iter_lines (content f))"
  shows "change_line tmp_path path line to fs = (None, fs)"
proof -
  have u: "universal_newlines (content f) = content f"
    using assms(3) by (rule universal_newlines_id)
  have r: "\<lparr>content = content f, mode = mode f\<rparr> = f"
    by (cases f) simp
  have "concat (rewritten line to (universal_newlines (content f))) = content f"
    using assms(4) by (simp add: u rewritten_no_match concat_iter_lines)
  then have "fs(path \<mapsto> \<lparr>content = concat (rewritten line to (universal_newlines (content f))),
                         mode = mode f\<rparr>) = fs(path \<mapsto> f)"
    by (simp only: r)
  also have "\<dots> = fs"
    using assms(1) by (rule map_upd_triv)
  finally show ?thesis
    using change_line_result[OF assms(1,2), of line to] by simp
qed

subsection \<open>Zero matches\<close>

text \<open>
  Claim C9, as amended. For every file that holds no carriage return, and every match
  value that is the content of no line of the file, \<open>change_line\<close> with any replacement
  list raises nothing and leaves the whole filesystem, and so the content and the
  permission bits of the file, as they were.
\<close>

theorem change_line_zero_match:
  assumes "fs path = Some f" and "fs tmp_path = None"
    and "CR \<notin> set (content f)"
    and "line \<notin> set (map line_content (iter_lines (content f)))"
  shows "change_line tmp_path path line to fs = (None, fs)"
  using assms(1,2,3)
proof (rule change_line_no_match)
  show "line @ [LF] \<notin> set (iter_lines (content f))"
  proof
    assume "line @ [LF] \<in> set (iter_lines (content f))"
    then have "line_content (line @ [LF]) \<in> set (map line_content (iter_lines (content f)))"
      by simp
    then show False using assms(4) by (simp add: line_content_def)
  qed
qed

theorem change_line_zero_match_witness:
  "change_line ''/tmp/tmpab12'' ''CHANGELOG.md'' ''## unreleased'' [''## 1.0.0 / 2020-01-02'']
     [''CHANGELOG.md'' \<mapsto> \<lparr>content = ''# Changes\<newline>\<newline>## 0.5.0\<newline>'', mode = 420\<rparr>]
   = (None, [''CHANGELOG.md'' \<mapsto> \<lparr>content = ''# Changes\<newline>\<newline>## 0.5.0\<newline>'', mode = 420\<rparr>])"
  by (rule change_line_zero_match [where f = "\<lparr>content = ''# Changes\<newline>\<newline>## 0.5.0\<newline>'', mode = 420\<rparr>"])
     (simp_all add: CR_def LF_def line_content_def)

text \<open>
  Claim C9 as stated fails on a file with a carriage return: the file is read with
  universal newlines, so the line \<open>a\r\n\<close> is written back as \<open>a\n\<close> although the match
  value \<open>TOML\<close> occurs nowhere in the file.
\<close>

theorem change_line_zero_match_counterexample:
  "snd (change_line ''/tmp/tmpab12'' ''toml.md'' ''TOML'' [''TOML v1.0.0'']
          [''toml.md'' \<mapsto> \<lparr>content = [CHR ''a'', CR, LF, CHR ''b'', LF], mode = 420\<rparr>])
     ''toml.md''
   = Some \<lparr>content = [CHR ''a'', LF, CHR ''b'', LF], mode = 420\<rparr>
   \<and> [CHR ''a'', LF, CHR ''b'', LF] \<noteq> [CHR ''a'', CR, LF, CHR ''b'', LF]"
  by (simp add: change_line_def change_line_ops_def rewritten_def rewrite_def CR_def LF_def)

lemma change_line_lines:
  assumes "fs path = Some f" and "fs tmp_path = None"
    and "\<forall>r\<in>set to. LF \<notin> set r \<and> CR \<notin> set r"
  shows "\<exists>g. change_line tmp_path path line to fs = (None, fs(path \<mapsto> g))
           \<and> mode g = mode f
           \<and> text_lines g
               = concat (map (\<lambda>l. if l = line @ [LF] then map (\<lambda>r. r @ [LF]) to else [l])
                           (text_lines f))"
proof -
  let ?g = "\<lparr>content = concat (rewritten line to (universal_newlines (content f))),
              mode = mode f\<rparr>"
  have "change_line tmp_path path line to fs = (None, fs(path \<mapsto> ?g))"
    using assms(1,2) by (rule change_line_result)
  moreover have "text_lines ?g = rewritten line to (universal_newlines (content f))"
    using reread_rewritten[OF assms(3)] by (simp add: text_lines_def)
  ultimately show ?thesis
    by (intro exI[of _ ?g]) (simp add: rewritten_lines text_lines_def)
qed




subsection \<open>The original file while the edit is written\<close>



subsection \<open>Replacement of the matching lines\<close>




subsection \<open>The two changelog edits\<close>

lemma unreleased_not_release: "unreleased_heading \<noteq> release_heading version date"
proof
  assume "unreleased_heading = release_heading version date"
  then have "set unreleased_heading = set (release_heading version date)" by simp
  moreover have "CHR ''/'' \<in> set (release_heading version date)"
    by (simp add: release_heading_def)
  moreover have "CHR ''/'' \<notin> set unreleased_heading"
    by (simp add: unreleased_heading_def)
  ultimately show False by simp
qed

lemma concat_map_concat_map:
  "concat (map f (concat (map g xs))) = concat (map (\<lambda>x. concat (map f (g x))) xs)"
  by (induction xs) simp_all

lemma changelog_edits:
  assumes f: "fs path = Some f" and t: "fs tmp_path = None"
    and nb: "\<forall>c\<in>set (version @ date). c \<noteq> LF \<and> c \<noteq> CR"
    and fresh: "release_heading version date @ [LF] \<notin> set (text_lines f)"
    and e1: "change_line tmp_path path unreleased_heading [release_heading version date] fs
               = (r1, fs1)"
    and e2: "change_line tmp_path path (release_heading version date)
               [unreleased_heading, '''', ''Nothing.'', '''', release_heading version date] fs1
               = (r2, fs2)"
  shows "r1 = None \<and> r2 = None
       \<and> (\<exists>g. fs2 = fs(path \<mapsto> g) \<and> mode g = mode f
              \<and> text_lines g
                  = concat (map (\<lambda>l. if l = ''## unreleased\<newline>''
                                      then [''## unreleased\<newline>'', ''\<newline>'', ''Nothing.\<newline>'', ''\<newline>'',
                                            release_heading version date @ ''\<newline>'']
                                      else [l])
                              (text_lines f)))"
proof -
  let ?h = "release_heading version date"
  let ?u = "unreleased_heading"
  have ne: "tmp_path \<noteq> path" using f t by auto
  have hb: "LF \<notin> set ?h \<and> CR \<notin> set ?h"
    using nb by (auto simp: release_heading_def LF_def CR_def)
  have ub: "LF \<notin> set ?u \<and> CR \<notin> set ?u"
    by (simp add: unreleased_heading_def LF_def CR_def)
  have b1: "\<forall>r\<in>set [?h]. LF \<notin> set r \<and> CR \<notin> set r" using hb by simp
  have b2: "\<forall>r\<in>set [?u, '''', ''Nothing.'', '''', ?h]. LF \<notin> set r \<and> CR \<notin> set r"
    using hb ub by (simp add: LF_def CR_def)
  obtain g1 where g1: "change_line tmp_path path ?u [?h] fs = (None, fs(path \<mapsto> g1))"
      "mode g1 = mode f"
      "text_lines g1 = concat (map (\<lambda>l. if l = ?u @ [LF] then map (\<lambda>r. r @ [LF]) [?h] else [l])
                                 (text_lines f))"
    using change_line_lines[OF f t b1, of ?u] by blast
  have r1: "r1 = None" and fs1: "fs1 = fs(path \<mapsto> g1)" using e1 g1(1) by simp_all
  have f1: "fs1 path = Some g1" and t1: "fs1 tmp_path = None"
    using fs1 t ne by simp_all
  obtain g2 where g2: "change_line tmp_path path ?h [?u, '''', ''Nothing.'', '''', ?h] fs1
        = (None, fs1(path \<mapsto> g2))"
      "mode g2 = mode g1"
      "text_lines g2 = concat (map (\<lambda>l. if l = ?h @ [LF]
                                         then map (\<lambda>r. r @ [LF]) [?u, '''', ''Nothing.'', '''', ?h]
                                         else [l])
                                 (text_lines g1))"
    using change_line_lines[OF f1 t1 b2, of ?h] by blast
  have r2: "r2 = None" and fs2: "fs2 = fs(path \<mapsto> g2)" using e2 g2(1) fs1 by simp_all
  have "text_lines g2
      = concat (map (\<lambda>l. if l = ''## unreleased\<newline>''
                          then [''## unreleased\<newline>'', ''\<newline>'', ''Nothing.\<newline>'', ''\<newline>'',
                                ?h @ ''\<newline>'']
                          else [l])
                  (text_lines f))"
    unfolding g2(3) g1(3) concat_map_concat_map
    using fresh unreleased_not_release[of version date]
    by (intro arg_cong[where f = concat] map_cong) (auto simp: unreleased_heading_def LF_def)
  then show ?thesis
    using r1 r2 fs2 g2(2) g1(2) by (intro conjI exI[of _ g2]) simp_all
qed

text \<open>
  Claim C5, as amended. For every changelog file in which no line has the release
  heading \<open>## <version> / <date>\<close> as its content and whose last line is terminated or
  is not \<open>## unreleased\<close>, with version and date free of line breaks, the release edit
  followed by the development edit raises nothing, changes only the changelog and keeps
  its permission bits; in the lines of the result every line \<open>## unreleased\<close> of the
  original stands replaced by the five lines \<open>## unreleased\<close>, blank, \<open>Nothing.\<close>,
  blank, release heading, and every other line is as it was read.
\<close>

theorem changelog_round_trip:
  assumes "fs path = Some f" and "fs tmp_path = None"
    and "\<forall>c\<in>set (version @ date). c \<noteq> LF \<and> c \<noteq> CR"
    and "\<forall>l\<in>set (text_lines f). line_content l \<noteq> release_heading version date"
    and "text_lines f = [] \<or> last (text_lines f) \<noteq> unreleased_heading"
  shows "\<exists>g. fst (change_line tmp_path path unreleased_heading [release_heading version date] fs)
             = None
           \<and> change_line tmp_path path (release_heading version date)
               [unreleased_heading, '''', ''Nothing.'', '''', release_heading version date]
               (snd (change_line tmp_path path unreleased_heading
                       [release_heading version date] fs))
             = (None, fs(path \<mapsto> g))
           \<and> mode g = mode f
           \<and> text_lines g
               = concat (map (\<lambda>l. if l = ''## unreleased\<newline>''
                                   then [''## unreleased\<newline>'', ''\<newline>'', ''Nothing.\<newline>'', ''\<newline>'',
                                         release_heading version date @ ''\<newline>'']
                                   else [l])
                           (text_lines f))"
proof -
  obtain r1 fs1 where e1:
    "change_line tmp_path path unreleased_heading [release_heading version date] fs = (r1, fs1)"
    by fastforce
  obtain r2 fs2 where e2:
    "change_line tmp_path path (release_heading version date)
       [unreleased_heading, [], ''Nothing.'', [], release_heading version date] fs1 = (r2, fs2)"
    by fastforce
  have fresh: "release_heading version date @ [LF] \<notin> set (text_lines f)"
  proof
    assume "release_heading version date @ [LF] \<in> set (text_lines f)"
    then have "line_content (release_heading version date @ [LF]) \<noteq> release_heading version date"
      using assms(4) by blast
    then show False by (simp add: line_content_def)
  qed
  from changelog_edits[OF assms(1,2,3) fresh e1 e2] obtain g where
    g: "r1 = None" "r2 = None" "fs2 = fs(path \<mapsto> g)" "mode g = mode f"
      "text_lines g
         = concat (map (\<lambda>l. if l = ''## unreleased\<newline>''
                             then [''## unreleased\<newline>'', ''\<newline>'', ''Nothing.\<newline>'', ''\<newline>'',
                                   release_heading version date @ ''\<newline>'']
                             else [l])
                     (text_lines f))"
    by blast
  show ?thesis
    using e1 e2 g by (intro exI[of _ g]) simp
qed

theorem changelog_round_trip_witness:
  "\<exists>g. fst (change_line ''/tmp/tmpab12'' ''CHANGELOG.md'' unreleased_heading
                 [release_heading ''1.2.3'' ''2020-01-02'']
                 [''CHANGELOG.md'' \<mapsto> \<lparr>content = ''# Log\<newline>## unreleased\<newline>* new\<newline>## 1.2.2 / 2019-12-31\<newline>'', mode = 420\<rparr>])
          = None
      \<and> change_line ''/tmp/tmpab12'' ''CHANGELOG.md'' (release_heading ''1.2.3'' ''2020-01-02'')
            [unreleased_heading, '''', ''Nothing.'', '''', release_heading ''1.2.3'' ''2020-01-02'']
            (snd (change_line ''/tmp/tmpab12'' ''CHANGELOG.md'' unreleased_heading
                    [release_heading ''1.2.3'' ''2020-01-02'']
                    [''CHANGELOG.md'' \<mapsto> \<lparr>content = ''# Log\<newline>## unreleased\<newline>* new\<newline>## 1.2.2 / 2019-12-31\<newline>'', mode = 420\<rparr>]))
          = (None, [''CHANGELOG.md'' \<mapsto> g])
      \<and> mode g = 420
      \<and> text_lines g
          = [''# Log\<newline>'', ''## unreleased\<newline>'', ''\<newline>'', ''Nothing.\<newline>'', ''\<newline>'',
             ''## 1.2.3 / 2020-01-02\<newline>'', ''* new\<newline>'', ''## 1.2.2 / 2019-12-31\<newline>'']"
  using changelog_round_trip
    [of "[''CHANGELOG.md'' \<mapsto> \<lparr>content = ''# Log\<newline>## unreleased\<newline>* new\<newline>## 1.2.2 / 2019-12-31\<newline>'', mode = 420\<rparr>]"
        "''CHANGELOG.md''" "\<lparr>content = ''# Log\<newline>## unreleased\<newline>* new\<newline>## 1.2.2 / 2019-12-31\<newline>'', mode = 420\<rparr>"
        "''/tmp/tmpab12''" "''1.2.3''" "''2020-01-02''"]
  by (simp add: text_lines_def release_heading_def unreleased_heading_def line_content_def
      LF_def CR_def)

text \<open>
  Claim C5 as stated fails on a changelog that already holds the release heading: the
  development edit replaces every line equal to the heading, so the old heading line
  receives a second \<open>## unreleased\<close> block.
\<close>

theorem changelog_round_trip_counterexample:
  "map_option content
     (snd (change_line ''/tmp/tmpab12'' ''CHANGELOG.md'' (release_heading ''1.2.3'' ''2020-01-02'')
             [unreleased_heading, '''', ''Nothing.'', '''', release_heading ''1.2.3'' ''2020-01-02'']
             (snd (change_line ''/tmp/tmpab12'' ''CHANGELOG.md'' unreleased_heading
                     [release_heading ''1.2.3'' ''2020-01-02'']
                     [''CHANGELOG.md'' \<mapsto> \<lparr>content = ''## unreleased\<newline>## 1.2.3 / 2020-01-02\<newline>'', mode = 420\<rparr>])))
        ''CHANGELOG.md'')
   = Some ''## unreleased\<newline>\<newline>Nothing.\<newline>\<newline>## 1.2.3 / 2020-01-02\<newline>## unreleased\<newline>\<newline>Nothing.\<newline>\<newline>## 1.2.3 / 2020-01-02\<newline>''"
  by (simp add: change_line_def change_line_ops_def rewritten_def rewrite_def
      release_heading_def unreleased_heading_def LF_def CR_def)

section \<open>Properties of the Version Validator\<close>

subsection \<open>The matcher finds every word\<close>

lemma star_loop_self: "st \<in> set (star_loop step n st)"
  by (cases n) simp_all

lemma star_loop_Suc_iff:
  "x \<in> set (star_loop step (Suc n) st) \<longleftrightarrow>
     x = st \<or> (\<exists>st'\<in>set (step st). length (snd (snd st')) < length (snd (snd st))
                  \<and> x \<in> set (star_loop step n st'))"
  by auto

lemma star_loop_mono:
  "m \<le> n \<Longrightarrow> x \<in> set (star_loop step m st) \<Longrightarrow> x \<in> set (star_loop step n st)"
proof (induction m arbitrary: n st)
  case 0
  then show ?case by (simp add: star_loop_self)
next
  case (Suc m)
  then obtain n' where n: "n = Suc n'" "m \<le> n'" by (cases n) auto
  from Suc.prems(2) consider
    (stop) "x = st"
    | (step) st' where "st' \<in> set (step st)" "length (snd (snd st')) < length (snd (snd st))"
        "x \<in> set (star_loop step m st')"
    unfolding star_loop_Suc_iff by blast
  then show ?case
  proof cases
    case stop
    then show ?thesis by (simp add: star_loop_self)
  next
    case step
    then have "x \<in> set (star_loop step n' st')" using Suc.IH n(2) by blast
    then show ?thesis using step(1,2) unfolding n(1) star_loop_Suc_iff by blast
  qed
qed

lemma star_loop_step:
  assumes "st' \<in> set (step st)" and "length (snd (snd st')) < length (snd (snd st))"
    and "x \<in> set (star_loop step (length (snd (snd st'))) st')"
  shows "x \<in> set (star_loop step (length (snd (snd st))) st)"
proof -
  obtain n where n: "length (snd (snd st)) = Suc n" "length (snd (snd st')) \<le> n"
    using assms(2) by (cases \<open>length (snd (snd st))\<close>) auto
  have "x \<in> set (star_loop step n st')"
    using star_loop_mono[OF n(2) assms(3)] .
  then show ?thesis using assms(1,2) unfolding n(1) star_loop_Suc_iff by blast
qed

lemma re_run_complete:
  "matches r w \<Longrightarrow> \<exists>g'. (g', p + length w, t) \<in> set (re_run r (g, p, w @ t))"
proof (induction arbitrary: g p t rule: matches.induct)
  case (m_Seq a u b v)
  obtain g1 where g1: "(g1, p + length u, v @ t) \<in> set (re_run a (g, p, u @ v @ t))"
    using m_Seq.IH(1) by blast
  obtain g2 where "(g2, p + length u + length v, t) \<in> set (re_run b (g1, p + length u, v @ t))"
    using m_Seq.IH(2) by blast
  then show ?case using g1 by (auto simp: add.assoc intro!: exI[of _ g2] bexI[OF _ g1])
next
  case (m_StarStep r u v)
  obtain g1 where g1: "(g1, p + length u, v @ t) \<in> set (re_run r (g, p, u @ v @ t))"
    using m_StarStep.IH(1) by blast
  obtain g2 where g2: "(g2, p + length u + length v, t)
      \<in> set (re_run (Star r) (g1, p + length u, v @ t))"
    using m_StarStep.IH(2) by blast
  have "(g2, p + length u + length v, t)
      \<in> set (star_loop (re_run r) (length (snd (snd (g, p, u @ v @ t)))) (g, p, u @ v @ t))"
    by (rule star_loop_step[where st' = "(g1, p + length u, v @ t)" and step = "re_run r"])
       (use m_StarStep.hyps(2) g1 g2 in auto)
  then show ?case by (auto simp: add.assoc intro!: exI[of _ g2])
next
  case (m_Plus r u v)
  obtain g1 where g1: "(g1, p + length u, v @ t) \<in> set (re_run r (g, p, u @ v @ t))"
    using m_Plus.IH(1) by blast
  obtain g2 where g2: "(g2, p + length u + length v, t)
      \<in> set (re_run (Star r) (g1, p + length u, v @ t))"
    using m_Plus.IH(2) by blast
  then show ?case using g1 by (auto simp: add.assoc intro!: exI[of _ g2] bexI[OF _ g1])
next
  case (m_Group r u name)
  obtain g1 where g1: "(g1, p + length u, t) \<in> set (re_run r (g, p, u @ t))"
    using m_Group.IH by blast
  show ?case
    by (rule exI[of _ "g1(name \<mapsto> take (p + length u - p) (u @ t))"])
       (use g1 in \<open>auto simp: image_iff intro!: bexI[OF _ g1]\<close>)
next
  case (m_AltL a u b)
  then show ?case by (metis UnI1 re_run.simps(5) set_append)
next
  case (m_AltR b u a)
  then show ?case by (metis UnI2 re_run.simps(5) set_append)
next
  case (m_StarNil r)
  show ?case using star_loop_self[of "(g, p, t)" "re_run r" "length t"] by auto
next
  case (m_OptSome r u)
  then show ?case by (metis UnI1 re_run.simps(8) set_append)
qed auto

subsection \<open>What a match leaves behind\<close>

lemma star_loop_invariant:
  assumes step: "\<And>st st'. st' \<in> set (step st) \<Longrightarrow> Q st st'"
    and refl: "\<And>st. Q st st"
    and trans: "\<And>a b c. Q a b \<Longrightarrow> Q b c \<Longrightarrow> Q a c"
  shows "x \<in> set (star_loop step n st) \<Longrightarrow> Q st x"
proof (induction n arbitrary: st)
  case 0
  then show ?case by (simp add: refl)
next
  case (Suc n)
  then consider "x = st"
    | st' where "st' \<in> set (step st)" "x \<in> set (star_loop step n st')"
    unfolding star_loop_Suc_iff by blast
  then show ?case
  proof cases
    case 1
    then show ?thesis by (simp add: refl)
  next
    case 2
    then show ?thesis using step Suc.IH trans by blast
  qed
qed

lemma re_run_frame:
  "st' \<in> set (re_run r st) \<Longrightarrow>
     (\<exists>w. snd (snd st) = w @ snd (snd st'))
     \<and> (\<forall>name. name \<notin> group_names r \<longrightarrow> fst st' name = fst st name)"
proof (induction r arbitrary: st st')
  case (Lit c)
  then show ?case by (cases st) (auto split: list.splits if_splits)
next
  case Digit
  then show ?case by (cases st) (auto split: list.splits if_splits)
next
  case (Chars rs)
  then show ?case by (cases st) (auto split: list.splits if_splits)
next
  case (Seq a b)
  from Seq.prems obtain m where m: "m \<in> set (re_run a st)" "st' \<in> set (re_run b m)"
    by auto
  show ?case using Seq.IH(1)[OF m(1)] Seq.IH(2)[OF m(2)] by auto
next
  case (Alt a b)
  from Alt.prems consider "st' \<in> set (re_run a st)" | "st' \<in> set (re_run b st)" by auto
  then show ?case
  proof cases
    case 1
    show ?thesis using Alt.IH(1)[OF 1] by simp
  next
    case 2
    show ?thesis using Alt.IH(2)[OF 2] by simp
  qed
next
  case (Star r)
  let ?Q = "\<lambda>a b. (\<exists>w. snd (snd a) = w @ snd (snd b))
              \<and> (\<forall>name. name \<notin> group_names r \<longrightarrow> fst b name = fst a name)"
  obtain g p s where st: "st = (g, p, s)" by (cases st)
  have "st' \<in> set (star_loop (re_run r) (length s) st)" using Star.prems st by simp
  then have "?Q st st'"
  proof (rule star_loop_invariant[where Q = ?Q, rotated -1])
    show "\<And>a b. b \<in> set (re_run r a) \<Longrightarrow> ?Q a b" using Star.IH by blast
    show "\<And>a. ?Q a a" by simp
    show "\<And>a b c. ?Q a b \<Longrightarrow> ?Q b c \<Longrightarrow> ?Q a c" by auto
  qed
  then show ?case by simp
next
  case (Plus r)
  let ?Q = "\<lambda>a b. (\<exists>w. snd (snd a) = w @ snd (snd b))
              \<and> (\<forall>name. name \<notin> group_names r \<longrightarrow> fst b name = fst a name)"
  from Plus.prems obtain m where m: "m \<in> set (re_run r st)"
      "st' \<in> set (star_loop (re_run r) (length (snd (snd m))) m)"
    by auto
  have "?Q m st'" using m(2)
  proof (rule star_loop_invariant[where Q = ?Q, rotated -1])
    show "\<And>a b. b \<in> set (re_run r a) \<Longrightarrow> ?Q a b" using Plus.IH by blast
    show "\<And>a. ?Q a a" by simp
    show "\<And>a b c. ?Q a b \<Longrightarrow> ?Q b c \<Longrightarrow> ?Q a c" by auto
  qed
  then show ?case using Plus.IH[OF m(1)] by auto
next
  case (Opt r)
  from Opt.prems consider "st' \<in> set (re_run r st)" | "st' = st" by auto
  then show ?case
  proof cases
    case 1
    show ?thesis using Opt.IH[OF 1] by simp
  next
    case 2
    then show ?thesis by simp
  qed
next
  case (Group name r)
  obtain g p s where st: "st = (g, p, s)" by (cases st)
  from Group.prems st obtain g1 p1 s1 where
    m: "(g1, p1, s1) \<in> set (re_run r (g, p, s))"
      "st' = (g1(name \<mapsto> take (p1 - p) s), p1, s1)"
    by auto
  show ?case using Group.IH[OF m(1)] m(2) st by auto
next
  case Bol
  then show ?case by (cases st) (auto split: if_splits)
next
  case Eol
  then show ?case by (cases st) (auto split: if_splits)
qed

lemma guarded_no_group: "name \<notin> group_names r \<Longrightarrow> guarded c name r"
  unfolding guarded_def using re_run_frame by fastforce

lemma guarded_Seq: "guarded c name a \<Longrightarrow> guarded c name b \<Longrightarrow> guarded c name (Seq a b)"
  unfolding guarded_def
proof (intro allI impI)
  fix g p s g' p' s'
  assume a: "\<forall>g p s g' p' s'. (g', p', s') \<in> set (re_run a (g, p, s)) \<longrightarrow>
               (\<exists>w. s = w @ s' \<and> (g' name = g name \<or> c \<in> set w))"
    and b: "\<forall>g p s g' p' s'. (g', p', s') \<in> set (re_run b (g, p, s)) \<longrightarrow>
               (\<exists>w. s = w @ s' \<and> (g' name = g name \<or> c \<in> set w))"
    and r: "(g', p', s') \<in> set (re_run (Seq a b) (g, p, s))"
  from r obtain g1 p1 s1 where m: "(g1, p1, s1) \<in> set (re_run a (g, p, s))"
      "(g', p', s') \<in> set (re_run b (g1, p1, s1))"
    by auto
  obtain w1 where w1: "s = w1 @ s1" "g1 name = g name \<or> c \<in> set w1" using a m(1) by blast
  obtain w2 where w2: "s1 = w2 @ s'" "g' name = g1 name \<or> c \<in> set w2" using b m(2) by blast
  show "\<exists>w. s = w @ s' \<and> (g' name = g name \<or> c \<in> set w)"
    using w1 w2 by (intro exI[of _ "w1 @ w2"]) auto
qed

lemma guarded_Opt: "guarded c name r \<Longrightarrow> guarded c name (Opt r)"
  unfolding guarded_def by auto

lemma guarded_Lit: "guarded c name (Seq (Lit c) r)"
  unfolding guarded_def
proof (intro allI impI)
  fix g p s g' p' s'
  assume r: "(g', p', s') \<in> set (re_run (Seq (Lit c) r) (g, p, s))"
  then obtain xs where s: "s = c # xs" "(g', p', s') \<in> set (re_run r (g, Suc p, xs))"
    by (auto split: list.splits if_splits)
  obtain w where "xs = w @ s'" using re_run_frame[OF s(2)] by auto
  then show "\<exists>w. s = w @ s' \<and> (g' name = g name \<or> c \<in> set w)"
    using s(1) by (intro exI[of _ "c # w"]) simp
qed

lemma guarded_SEMVER_REGEX: "guarded CHR ''+'' ''buildmetadata'' SEMVER_REGEX"
  unfolding SEMVER_REGEX_def
  by (intro guarded_Seq guarded_Opt guarded_Lit guarded_no_group)
     (simp_all add: numeric_re_def prerelease_id_re_def letter_re_def alnum_re_def)

lemma re_match_no_build:
  assumes "re_run SEMVER_REGEX (Map.empty, 0, s) \<noteq> []" and "CHR ''+'' \<notin> set s"
  shows "\<exists>m. re_match SEMVER_REGEX s = Some m \<and> m ''buildmetadata'' = None"
proof -
  obtain g p t rest where r: "re_run SEMVER_REGEX (Map.empty, 0, s) = (g, p, t) # rest"
    using assms(1) by (cases \<open>re_run SEMVER_REGEX (Map.empty, 0, s)\<close>) auto
  then have "(g, p, t) \<in> set (re_run SEMVER_REGEX (Map.empty, 0, s))" by simp
  then obtain w where "s = w @ t" "g ''buildmetadata'' = Map.empty ''buildmetadata'' \<or> CHR ''+'' \<in> set w"
    using guarded_SEMVER_REGEX unfolding guarded_def by blast
  then have "g ''buildmetadata'' = None" using assms(2) by auto
  then show ?thesis using r by (simp add: re_match_def)
qed

subsection \<open>Valid versions are words of the pattern\<close>

lemma split_on_not_Nil: "split_on c s \<noteq> []"
  by (induction s) (auto split: list.splits)

lemma join_split_on: "join c (split_on c s) = s"
proof (induction s)
  case Nil
  then show ?case by simp
next
  case (Cons x s)
  obtain w ws where w: "split_on c s = w # ws"
    using split_on_not_Nil[of c s] by (cases \<open>split_on c s\<close>) auto
  show ?case
  proof (cases rule: case_split[of "x = c"])
    case True
    then show ?thesis using Cons.IH w by simp
  next
    case False
    then show ?thesis using Cons.IH w by (cases ws) auto
  qed
qed

lemma alnum_all:
  "list_all (in_ranges [(CHR ''0'', CHR ''9''), (CHR ''a'', CHR ''z''), (CHR ''A'', CHR ''Z''),
                (CHR ''-'', CHR ''-'')])
     ''0123456789abcdefghijklmnopqrstuvwxyzABCDEFGHIJKLMNOPQRSTUVWXYZ-''"
  by code_simp

lemma alnum_in_ranges:
  "is_alnum_hyphen c \<Longrightarrow>
     in_ranges [(CHR ''0'', CHR ''9''), (CHR ''a'', CHR ''z''), (CHR ''A'', CHR ''Z''),
                (CHR ''-'', CHR ''-'')] c"
  using alnum_all unfolding is_alnum_hyphen_def list_all_iff by blast

lemma letter_all:
  "list_all (\<lambda>c. c \<in> set ''0123456789''
               \<or> in_ranges [(CHR ''a'', CHR ''z''), (CHR ''A'', CHR ''Z''), (CHR ''-'', CHR ''-'')] c)
     ''0123456789abcdefghijklmnopqrstuvwxyzABCDEFGHIJKLMNOPQRSTUVWXYZ-''"
  by code_simp

lemma letter_in_ranges:
  "is_alnum_hyphen c \<Longrightarrow> c \<notin> set ''0123456789'' \<Longrightarrow>
     in_ranges [(CHR ''a'', CHR ''z''), (CHR ''A'', CHR ''Z''), (CHR ''-'', CHR ''-'')] c"
  using letter_all unfolding is_alnum_hyphen_def list_all_iff by blast

lemma digit_all: "list_all is_digit ''0123456789''"
  by code_simp

lemma nonzero_all: "list_all (\<lambda>c. c = CHR ''0'' \<or> in_ranges [(CHR ''1'', CHR ''9'')] c) ''0123456789''"
  by code_simp

lemma plus_not_alnum: "\<not> is_alnum_hyphen CHR ''+''"
  by code_simp

lemma digit_is_digit: "c \<in> set ''0123456789'' \<Longrightarrow> is_digit c"
  using digit_all unfolding list_all_iff by blast

lemma nonzero_digit:
  "c \<in> set ''0123456789'' \<Longrightarrow> c \<noteq> CHR ''0'' \<Longrightarrow> in_ranges [(CHR ''1'', CHR ''9'')] c"
  using nonzero_all unfolding list_all_iff by blast

lemma matches_Star_chars:
  assumes "\<And>c. P c \<Longrightarrow> matches r [c]"
  shows "list_all P w \<Longrightarrow> matches (Star r) w"
proof (induction w)
  case Nil
  then show ?case by (simp add: m_StarNil)
next
  case (Cons c w)
  then have "matches r [c]" and "matches (Star r) w" using assms by auto
  then have "matches (Star r) ([c] @ w)" by (intro m_StarStep) auto
  then show ?case by simp
qed

lemma matches_digits: "list_all (\<lambda>c. c \<in> set ''0123456789'') w \<Longrightarrow> matches (Star Digit) w"
proof (rule matches_Star_chars[where P = "\<lambda>c. c \<in> set ''0123456789''"])
  show "\<And>c. c \<in> set ''0123456789'' \<Longrightarrow> matches Digit [c]"
    by (rule m_Digit) (rule digit_is_digit)
qed

lemma matches_alnums: "list_all is_alnum_hyphen w \<Longrightarrow> matches (Star alnum_re) w"
  unfolding alnum_re_def
proof (rule matches_Star_chars[where P = is_alnum_hyphen])
  show "\<And>c. is_alnum_hyphen c \<Longrightarrow>
          matches (Chars [(CHR ''0'', CHR ''9''), (CHR ''a'', CHR ''z''), (CHR ''A'', CHR ''Z''),
                          (CHR ''-'', CHR ''-'')]) [c]"
    by (rule m_Chars) (rule alnum_in_ranges)
qed

lemma is_numeric_cases:
  assumes "is_numeric n"
  shows "n = ''0'' \<or> matches (Seq (Chars [(CHR ''1'', CHR ''9'')]) (Star Digit)) n"
proof (cases rule: case_split[of "n = ''0''"])
  case True
  then show ?thesis by simp
next
  case False
  from assms obtain d ds where n: "n = d # ds" by (cases n) (auto simp: is_numeric_def)
  have d: "d \<in> set ''0123456789''" and ds: "list_all (\<lambda>c. c \<in> set ''0123456789'') ds"
    and nz: "d \<noteq> CHR ''0''"
    using assms False n by (auto simp: is_numeric_def)
  have "matches (Seq (Chars [(CHR ''1'', CHR ''9'')]) (Star Digit)) ([d] @ ds)"
    by (intro m_Seq m_Chars nonzero_digit[OF d nz] matches_digits[OF ds])
  then show ?thesis using n by simp
qed

lemma matches_zero: "matches (Lit CHR ''0'') ''0''"
  by (rule m_Lit)

lemma matches_numeric:
  assumes "is_numeric n"
  shows "matches numeric_re n"
  unfolding numeric_re_def using is_numeric_cases[OF assms]
proof
  assume "n = ''0''"
  then show "matches (Alt (Lit CHR ''0'') (Seq (Chars [(CHR ''1'', CHR ''9'')]) (Star Digit))) n"
    using m_AltL[OF matches_zero] by simp
next
  assume "matches (Seq (Chars [(CHR ''1'', CHR ''9'')]) (Star Digit)) n"
  then show "matches (Alt (Lit CHR ''0'') (Seq (Chars [(CHR ''1'', CHR ''9'')]) (Star Digit))) n"
    by (rule m_AltR)
qed

lemma matches_prerelease_id:
  assumes "is_prerelease_identifier i"
  shows "matches prerelease_id_re i"
proof (cases rule: case_split[of "list_all (\<lambda>c. c \<in> set ''0123456789'') i"])
  case True
  then have "is_numeric i" using assms by (simp add: is_prerelease_identifier_def)
  then have "i = ''0'' \<or> matches (Seq (Chars [(CHR ''1'', CHR ''9'')]) (Star Digit)) i"
    by (rule is_numeric_cases)
  then show ?thesis
    unfolding prerelease_id_re_def
  proof
    assume "i = ''0''"
    then show "matches (Alt (Lit CHR ''0'')
        (Alt (Seq (Chars [(CHR ''1'', CHR ''9'')]) (Star Digit))
             (Seq (Star Digit) (Seq letter_re (Star alnum_re))))) i"
      using m_AltL[OF matches_zero] by simp
  next
    assume "matches (Seq (Chars [(CHR ''1'', CHR ''9'')]) (Star Digit)) i"
    then show "matches (Alt (Lit CHR ''0'')
        (Alt (Seq (Chars [(CHR ''1'', CHR ''9'')]) (Star Digit))
             (Seq (Star Digit) (Seq letter_re (Star alnum_re))))) i"
      by (intro m_AltR m_AltL)
  qed
next
  case False
  let ?P = "\<lambda>c. c \<in> set ''0123456789''"
  let ?ds = "takeWhile ?P i"
  have al: "list_all is_alnum_hyphen i" using assms by (simp add: is_prerelease_identifier_def)
  have "dropWhile ?P i \<noteq> []" using False by (simp add: list_all_iff)
  then obtain x rest where x: "dropWhile ?P i = x # rest" by (cases \<open>dropWhile ?P i\<close>) auto
  have i: "i = ?ds @ [x] @ rest" using x takeWhile_dropWhile_id[of ?P i] by simp
  have nx: "\<not> ?P x" using x hd_dropWhile[of ?P i] by fastforce
  have "set i = set ?ds \<union> {x} \<union> set rest" by (subst i) auto
  then have "x \<in> set i" and "set rest \<subseteq> set i" by auto
  then have ax: "is_alnum_hyphen x" and ar: "list_all is_alnum_hyphen rest"
    using al by (auto simp: list_all_iff)
  have ds: "list_all ?P ?ds" unfolding list_all_iff using set_takeWhileD by fast
  have "matches (Seq (Star Digit) (Seq letter_re (Star alnum_re))) (?ds @ [x] @ rest)"
    unfolding letter_re_def
    by (intro m_Seq m_Chars matches_digits[OF ds] letter_in_ranges[OF ax nx] matches_alnums[OF ar])
  then have "matches (Seq (Star Digit) (Seq letter_re (Star alnum_re))) i" using i by simp
  then show ?thesis unfolding prerelease_id_re_def by (rule m_AltR[OF m_AltR])
qed

lemma matches_dotted_tail:
  "list_all is_prerelease_identifier ids \<Longrightarrow>
     matches (Star (Seq (Lit CHR ''.'') prerelease_id_re)) (concat (map (\<lambda>i. CHR ''.'' # i) ids))"
proof (induction ids)
  case Nil
  then show ?case by (simp add: m_StarNil)
next
  case (Cons i ids)
  then have "matches (Seq (Lit CHR ''.'') prerelease_id_re) ([CHR ''.''] @ i)"
    by (intro m_Seq m_Lit matches_prerelease_id) simp
  moreover have "matches (Star (Seq (Lit CHR ''.'') prerelease_id_re))
                   (concat (map (\<lambda>i. CHR ''.'' # i) ids))"
    using Cons by simp
  ultimately have "matches (Star (Seq (Lit CHR ''.'') prerelease_id_re))
      (([CHR ''.''] @ i) @ concat (map (\<lambda>i. CHR ''.'' # i) ids))"
    by (intro m_StarStep) auto
  then show ?case by simp
qed

lemma join_Cons: "join c (x # xs) = x @ concat (map (\<lambda>i. c # i) xs)"
  by (induction xs arbitrary: x) auto

lemma matches_prerelease:
  assumes "list_all is_prerelease_identifier (split_on CHR ''.'' p)"
  shows "matches (Seq prerelease_id_re (Star (Seq (Lit CHR ''.'') prerelease_id_re))) p"
proof -
  obtain i ids where s: "split_on CHR ''.'' p = i # ids"
    using split_on_not_Nil[of "CHR ''.''" p] by (cases \<open>split_on CHR ''.'' p\<close>) auto
  have "p = i @ concat (map (\<lambda>i. CHR ''.'' # i) ids)"
    using join_split_on[of "CHR ''.''" p] s by (simp add: join_Cons)
  moreover have "matches (Seq prerelease_id_re (Star (Seq (Lit CHR ''.'') prerelease_id_re)))
      (i @ concat (map (\<lambda>i. CHR ''.'' # i) ids))"
    using assms s by (intro m_Seq matches_prerelease_id matches_dotted_tail) auto
  ultimately show ?thesis by simp
qed

lemma semver_decompose:
  assumes "is_semver v" and "\<not> has_build_metadata v"
  shows "\<exists>major minor patch pre.
           v = major @ ([CHR ''.''] @ (minor @ ([CHR ''.''] @ (patch @ pre))))
         \<and> is_numeric major \<and> is_numeric minor \<and> is_numeric patch
         \<and> (pre = [] \<or> (\<exists>p. pre = [CHR ''-''] @ p
                \<and> list_all is_prerelease_identifier (split_on CHR ''.'' p)))"
proof -
  let ?core = "takeWhile (\<lambda>c. c \<noteq> CHR ''-'') v"
  let ?pre = "dropWhile (\<lambda>c. c \<noteq> CHR ''-'') v"
  have nb: "takeWhile (\<lambda>c. c \<noteq> CHR ''+'') v = v"
    using assms(2) by (auto simp: has_build_metadata_def takeWhile_eq_all_conv)
  have sem: "(case split_on CHR ''.'' ?core of
                [major, minor, patch] \<Rightarrow> is_numeric major \<and> is_numeric minor \<and> is_numeric patch
              | _ \<Rightarrow> False)"
      and pre: "?pre = [] \<or> list_all is_prerelease_identifier (split_on CHR ''.'' (tl ?pre))"
    using assms(1) unfolding is_semver_def Let_def nb by simp_all
  from sem obtain major minor patch where
    sp: "split_on CHR ''.'' ?core = [major, minor, patch]"
    and num: "is_numeric major" "is_numeric minor" "is_numeric patch"
    by (auto split: list.splits)
  have core: "?core = major @ ([CHR ''.''] @ (minor @ ([CHR ''.''] @ patch)))"
    using join_split_on[of "CHR ''.''" ?core] sp by simp
  have v: "v = ?core @ ?pre" by simp
  have p: "?pre = [] \<or> (\<exists>p. ?pre = [CHR ''-''] @ p
                \<and> list_all is_prerelease_identifier (split_on CHR ''.'' p))"
  proof (cases rule: list.exhaust[of ?pre])
    case Nil
    then show ?thesis by simp
  next
    case (Cons x p)
    then have "x = CHR ''-''" using hd_dropWhile[of "\<lambda>c. c \<noteq> CHR ''-''" v] by fastforce
    then show ?thesis using Cons pre by simp
  qed
  show ?thesis
    by (rule exI[of _ major], rule exI[of _ minor], rule exI[of _ patch], rule exI[of _ ?pre])
       (use v core num p in auto)
qed

lemma reaches_Seq:
  assumes "matches a u" and "reaches b (p + length u) t"
  shows "reaches (Seq a b) p (u @ t)"
  unfolding reaches_def
proof
  fix g
  obtain g1 where g1: "(g1, p + length u, t) \<in> set (re_run a (g, p, u @ t))"
    using re_run_complete[OF assms(1)] by blast
  have "re_run b (g1, p + length u, t) \<noteq> []" using assms(2) by (simp add: reaches_def)
  then obtain x where "x \<in> set (re_run b (g1, p + length u, t))"
    by (cases \<open>re_run b (g1, p + length u, t)\<close>) auto
  then have "x \<in> set (re_run (Seq a b) (g, p, u @ t))"
    using g1 by (simp del: split_paired_Ex split_paired_All) blast
  then show "re_run (Seq a b) (g, p, u @ t) \<noteq> []" by (metis empty_iff list.set(1))
qed

lemma reaches_Bol: "reaches b 0 s \<Longrightarrow> reaches (Seq Bol b) 0 s"
  by (simp add: reaches_def)

lemma reaches_Eol: "t = [] \<or> t = [LF] \<Longrightarrow> reaches Eol p t"
  by (auto simp: reaches_def)

lemma reaches_SEMVER_REGEX:
  assumes "is_semver v" and "\<not> has_build_metadata v" and "t = [] \<or> t = [LF]"
  shows "reaches SEMVER_REGEX 0 (v @ t)"
proof -
  obtain major minor patch pre where
    v: "v = major @ ([CHR ''.''] @ (minor @ ([CHR ''.''] @ (patch @ pre))))"
    and num: "is_numeric major" "is_numeric minor" "is_numeric patch"
    and pre: "pre = [] \<or> (\<exists>p. pre = [CHR ''-''] @ p
                \<and> list_all is_prerelease_identifier (split_on CHR ''.'' p))"
    using semver_decompose[OF assms(1,2)] by blast
  have mp: "matches (Opt (Seq (Lit CHR ''-'')
                   (Group ''prerelease''
                      (Seq prerelease_id_re (Star (Seq (Lit CHR ''.'') prerelease_id_re)))))) pre"
    using pre
  proof
    assume "pre = []"
    then show ?thesis by (simp add: m_OptNone)
  next
    assume "\<exists>p. pre = [CHR ''-''] @ p \<and> list_all is_prerelease_identifier (split_on CHR ''.'' p)"
    then obtain p where p: "pre = [CHR ''-''] @ p"
        "list_all is_prerelease_identifier (split_on CHR ''.'' p)"
      by blast
    show ?thesis unfolding p(1)
      by (intro m_OptSome m_Seq m_Lit m_Group matches_prerelease[OF p(2)])
  qed
  have mb: "matches (Opt (Seq (Lit CHR ''+'')
                   (Group ''buildmetadata''
                      (Seq (Plus alnum_re) (Star (Seq (Lit CHR ''.'') (Plus alnum_re))))))) []"
    by (rule m_OptNone)
  have "reaches SEMVER_REGEX 0
          (major @ ([CHR ''.''] @ (minor @ ([CHR ''.''] @ (patch @ (pre @ ([] @ t)))))))"
    unfolding SEMVER_REGEX_def
    by (intro reaches_Bol reaches_Seq reaches_Eol assms(3) m_Group m_Lit
          matches_numeric[OF num(1)] matches_numeric[OF num(2)] matches_numeric[OF num(3)] mp mb)
  then show ?thesis using v by simp
qed

lemma get_version_accepts:
  assumes "is_semver v" and "\<not> has_build_metadata v" and "t = [] \<or> t = [LF]"
  shows "get_version [prog, v @ t] = Inr (v @ t)"
proof -
  have "re_run SEMVER_REGEX (Map.empty, 0, v @ t) \<noteq> []"
    using reaches_SEMVER_REGEX[OF assms] by (simp add: reaches_def)
  moreover have "CHR ''+'' \<notin> set (v @ t)"
    using assms(2,3) by (auto simp: has_build_metadata_def LF_def)
  ultimately obtain m where "re_match SEMVER_REGEX (v @ t) = Some m" "m ''buildmetadata'' = None"
    using re_match_no_build by blast
  then show ?thesis by (simp add: get_version_def)
qed

lemma set_join: "set (join c xs) \<subseteq> insert c (\<Union>(set ` set xs))"
  by (induction c xs rule: join.induct) auto

lemma set_split_on: "x \<in> set s \<Longrightarrow> x \<noteq> c \<Longrightarrow> \<exists>w\<in>set (split_on c s). x \<in> set w"
  using set_join[of c "split_on c s"] by (auto simp: join_split_on)

lemma LF_not_alnum: "\<not> is_alnum_hyphen LF"
  unfolding LF_def by code_simp

lemma LF_not_digit: "LF \<notin> set ''0123456789''"
  by (simp add: LF_def)

subsection \<open>A trailing newline\<close>

lemma is_semver_no_LF:
  assumes "is_semver v"
  shows "LF \<notin> set v"
proof
  assume lf: "LF \<in> set v"
  let ?bb = "takeWhile (\<lambda>c. c \<noteq> CHR ''+'') v"
  let ?build = "dropWhile (\<lambda>c. c \<noteq> CHR ''+'') v"
  let ?core = "takeWhile (\<lambda>c. c \<noteq> CHR ''-'') ?bb"
  let ?pre = "dropWhile (\<lambda>c. c \<noteq> CHR ''-'') ?bb"
  have sem: "(case split_on CHR ''.'' ?core of
                [major, minor, patch] \<Rightarrow> is_numeric major \<and> is_numeric minor \<and> is_numeric patch
              | _ \<Rightarrow> False)"
    and pre: "?pre = [] \<or> list_all is_prerelease_identifier (split_on CHR ''.'' (tl ?pre))"
    and build: "?build = [] \<or> list_all is_build_identifier (split_on CHR ''.'' (tl ?build))"
    using assms unfolding is_semver_def Let_def by simp_all
  have "v = (?core @ ?pre) @ ?build" by simp
  then have "set v = set ?core \<union> set ?pre \<union> set ?build" by (metis set_append)
  then consider (c) "LF \<in> set ?core" | (p) "LF \<in> set ?pre" | (b) "LF \<in> set ?build"
    using lf by blast
  then show False
  proof cases
    case c
    then obtain w where w: "w \<in> set (split_on CHR ''.'' ?core)" "LF \<in> set w"
      using set_split_on[of LF ?core "CHR ''.''"] by (auto simp: LF_def)
    from sem obtain major minor patch where
      "split_on CHR ''.'' ?core = [major, minor, patch]"
      "is_numeric major" "is_numeric minor" "is_numeric patch"
      by (auto split: list.splits)
    then have "is_numeric w" using w(1) by auto
    then have "LF \<in> set ''0123456789''"
      using w(2) unfolding is_numeric_def list_all_iff by blast
    then show False using LF_not_digit by simp
  next
    case p
    then obtain x q where q: "?pre = x # q" by (cases ?pre) auto
    then have "x = CHR ''-''" using hd_dropWhile[of "\<lambda>c. c \<noteq> CHR ''-''" ?bb] by fastforce
    then have "LF \<in> set q" using p q by (auto simp: LF_def)
    then obtain w where w: "w \<in> set (split_on CHR ''.'' q)" "LF \<in> set w"
      using set_split_on[of LF q "CHR ''.''"] by (auto simp: LF_def)
    then have "is_prerelease_identifier w" using pre q by (auto simp: list_all_iff)
    then have "is_alnum_hyphen LF"
      using w(2) unfolding is_prerelease_identifier_def list_all_iff by blast
    then show False using LF_not_alnum by simp
  next
    case b
    then obtain x q where q: "?build = x # q" by (cases ?build) auto
    then have "x = CHR ''+''" using hd_dropWhile[of "\<lambda>c. c \<noteq> CHR ''+''" v] by fastforce
    then have "LF \<in> set q" using b q by (auto simp: LF_def)
    then obtain w where w: "w \<in> set (split_on CHR ''.'' q)" "LF \<in> set w"
      using set_split_on[of LF q "CHR ''.''"] by (auto simp: LF_def)
    then have "is_build_identifier w" using build q by (auto simp: list_all_iff)
    then have "is_alnum_hyphen LF"
      using w(2) unfolding is_build_identifier_def list_all_iff by blast
    then show False using LF_not_alnum by simp
  qed
qed

text \<open>
  Claim C10. For every semantic version without build metadata, the version followed by
  a single newline is not a semantic version, and \<open>get_version\<close> accepts it all the
  same and returns it with the newline: \<open>$\<close> matches just before a newline that ends
  the string.
\<close>

theorem get_version_trailing_newline:
  assumes "is_semver v" and "\<not> has_build_metadata v"
  shows "\<not> is_semver (v @ ''\<newline>'') \<and> get_version [prog, v @ ''\<newline>''] = Inr (v @ ''\<newline>'')"
proof -
  have "\<not> is_semver (v @ [LF])" using is_semver_no_LF[of "v @ [LF]"] by auto
  moreover have "get_version [prog, v @ [LF]] = Inr (v @ [LF])"
    using assms by (intro get_version_accepts) simp_all
  ultimately show ?thesis by (simp add: LF_def)
qed

theorem get_version_trailing_newline_witness:
  "is_semver ''1.2.3-rc.1'' \<and> \<not> has_build_metadata ''1.2.3-rc.1''
   \<and> \<not> is_semver ''1.2.3-rc.1\<newline>''
   \<and> get_version [''release.py'', ''1.2.3-rc.1\<newline>''] = Inr ''1.2.3-rc.1\<newline>''"
proof -
  have a: "is_semver ''1.2.3-rc.1''" by code_simp
  have b: "\<not> has_build_metadata ''1.2.3-rc.1''" by code_simp
  show ?thesis
    using a b get_version_trailing_newline[OF a b, of "''release.py''"] by simp
qed

text \<open>
  Claim C3 fails on the code at the argument \<open>1.0.0\n\<close>: the string is not a semantic
  version, and \<open>get_version\<close> returns it instead of rejecting it.
\<close>

theorem get_version_accepts_invalid:
  "\<not> is_semver ''1.0.0\<newline>'' \<and> get_version [''release.py'', ''1.0.0\<newline>''] = Inr ''1.0.0\<newline>''"
  by code_simp

lemma get_version_accepts_valid:
  "is_semver v \<Longrightarrow> \<not> has_build_metadata v \<Longrightarrow> get_version [prog, v] = Inr v"
  using get_version_accepts[of v "[]" prog] by simp

section \<open>Properties of the release process\<close>

subsection \<open>The effects of a step\<close>

lemma emitsI:
  assumes "\<And>w. \<exists>k. events (snd (m w)) = events w @ take k evs
              \<and> (\<forall>x. fst (m w) = Inr x \<longrightarrow> length evs \<le> k)"
  shows "emits m evs"
  unfolding emits_def using assms by blast

lemma emitsD:
  "emits m evs \<Longrightarrow>
     \<exists>k. events (snd (m w)) = events w @ take k evs
        \<and> (\<forall>x. fst (m w) = Inr x \<longrightarrow> length evs \<le> k)"
  unfolding emits_def by blast

lemma emits_one:
  assumes "\<And>w. events (snd (m w)) = events w @ [e]"
  shows "emits m [e]"
proof (rule emitsI)
  fix w
  show "\<exists>k. events (snd (m w)) = events w @ take k [e]
          \<and> (\<forall>x. fst (m w) = Inr x \<longrightarrow> length [e] \<le> k)"
    using assms[of w] by (intro exI[of _ 1]) simp
qed

lemma emits_run: "emits (run args dir) [Run dir args]"
  by (rule emits_one) (simp add: run_def Let_def)

lemma emits_change_line_io: "emits (change_line_io p line to) [ChangeLine p line to]"
  by (rule emits_one) (simp add: change_line_io_def split: prod.splits option.splits)

lemma emits_copyfile: "emits (copyfile src dst) [CopyFile src dst]"
  by (rule emits_one) (simp add: copyfile_def Let_def split: option.splits)

lemma emits_input: "emits (input prompt) [Input prompt]"
  by (rule emits_one) (simp add: input_def Let_def split: list.splits)

lemma emits_succeed: "emits (succeed x) []"
  by (rule emitsI) (simp add: succeed_def)

lemma task_snd: "snd (task message m w) = snd (m w)"
  by (simp add: task_def split: prod.splits sum.splits error.splits)

lemma task_Inr: "fst (task message m w) = Inr x \<Longrightarrow> fst (m w) = Inr x"
  by (simp add: task_def split: prod.splits sum.splits error.splits)

lemma emits_task:
  assumes "emits m evs"
  shows "emits (task message m) evs"
proof (rule emitsI)
  fix w
  obtain k where k: "events (snd (m w)) = events w @ take k evs"
    "\<forall>x. fst (m w) = Inr x \<longrightarrow> length evs \<le> k"
    using emitsD[OF assms, of w] by blast
  show "\<exists>k. events (snd (task message m w)) = events w @ take k evs
          \<and> (\<forall>x. fst (task message m w) = Inr x \<longrightarrow> length evs \<le> k)"
    using k task_Inr[of message m w] by (intro exI[of _ k]) (auto simp: task_snd)
qed

lemma and_then_Inl: "fst (m w) = Inl e \<Longrightarrow> and_then m f w = (Inl e, snd (m w))"
  by (cases \<open>m w\<close>) (simp add: and_then_def)

lemma and_then_Inr: "fst (m w) = Inr x \<Longrightarrow> and_then m f w = f x (snd (m w))"
  by (cases \<open>m w\<close>) (simp add: and_then_def)

lemma emits_and_then:
  assumes "emits m xs" and "\<And>x. emits (f x) ys"
  shows "emits (and_then m f) (xs @ ys)"
proof (rule emitsI)
  fix w
  obtain k1 where k1: "events (snd (m w)) = events w @ take k1 xs"
    "\<forall>x. fst (m w) = Inr x \<longrightarrow> length xs \<le> k1"
    using emitsD[OF assms(1), of w] by blast
  show "\<exists>k. events (snd (and_then m f w)) = events w @ take k (xs @ ys)
          \<and> (\<forall>x. fst (and_then m f w) = Inr x \<longrightarrow> length (xs @ ys) \<le> k)"
  proof (cases \<open>fst (m w)\<close>)
    case (Inl e)
    have "take k1 xs = take (min k1 (length xs)) xs"
      by (cases rule: le_cases[of k1 "length xs"]) (simp_all add: min_def)
    then have "events (snd (m w)) = events w @ take (min k1 (length xs)) (xs @ ys)"
      using k1(1) by simp
    then show ?thesis using and_then_Inl[of m w e f] Inl
      by (intro exI[of _ "min k1 (length xs)"]) simp
  next
    case (Inr x)
    have e1: "events (snd (m w)) = events w @ xs" using k1 Inr by simp
    obtain k2 where
      k2: "events (snd (f x (snd (m w)))) = events (snd (m w)) @ take k2 ys"
        "\<forall>y. fst (f x (snd (m w))) = Inr y \<longrightarrow> length ys \<le> k2"
      using emitsD[OF assms(2), of x "snd (m w)"] by blast
    have "events (snd (f x (snd (m w)))) = events w @ take (length xs + k2) (xs @ ys)"
      using k2(1) e1 by simp
    then show ?thesis using and_then_Inr[of m w x f] Inr k2(2)
      by (intro exI[of _ "length xs + k2"]) auto
  qed
qed

lemma emits_git_commit:
  "emits (git_commit message paths repo)
     ([Run repo ([''git'', ''add''] @ paths)] @ ([Run repo [''git'', ''commit'', ''-m'', message]] @ []))"
  unfolding git_commit_def by (intro emits_and_then emits_run emits_succeed)

subsection \<open>The effects of the Release Preparer and the Release Publisher\<close>

lemma emits_prepare_release_steps:
  "emits (prepare_release_steps version spec_repo website_repo backup_tag date)
     ([Run spec_repo [''git'', ''tag'', ''-m'', ''backup'', backup_tag]] @
      ([Run website_repo [''git'', ''tag'', ''-m'', ''backup'', backup_tag]] @
       (([ChangeLine (joinpath spec_repo ''CHANGELOG.md'') unreleased_heading
            [release_heading version date]] @
         ([Run spec_repo ([''git'', ''add''] @ [joinpath spec_repo ''CHANGELOG.md''])] @
          ([Run spec_repo [''git'', ''commit'', ''-m'', ''Release v'' @ version]] @ []))) @
        ([Run spec_repo [''git'', ''tag'', ''-m'', ''Release v'' @ version, version]] @
         (([ChangeLine (joinpath spec_repo ''CHANGELOG.md'') (release_heading version date)
              [unreleased_heading, [], ''Nothing.'', [], release_heading version date]] @
           ([Run spec_repo ([''git'', ''add''] @ [joinpath spec_repo ''CHANGELOG.md''])] @
            ([Run spec_repo [''git'', ''commit'', ''-m'', ''Bump for development'']] @ []))) @
          ([CopyFile (joinpath spec_repo ''toml.md'')
              (joinpath (joinpath (joinpath website_repo ''specs'') ''en'')
                 (''v'' @ version @ ''.md''))] @
           (([ChangeLine
                (joinpath (joinpath (joinpath website_repo ''specs'') ''en'')
                   (''v'' @ version @ ''.md''))
                ''TOML'' [''TOML v'' @ version]] @
             [ChangeLine
                (joinpath (joinpath (joinpath website_repo ''specs'') ''en'')
                   (''v'' @ version @ ''.md''))
                ''===='' [replicate (length (''TOML v'' @ version)) CHR ''='']]) @
            ([Run website_repo
                ([''git'', ''add''] @
                 [joinpath (joinpath (joinpath website_repo ''specs'') ''en'')
                    (''v'' @ version @ ''.md'')])] @
             ([Run website_repo [''git'', ''commit'', ''-m'', ''Release v'' @ version]] @ [])))))))))"
  unfolding prepare_release_steps_def Let_def
  by (intro emits_and_then emits_task emits_run emits_change_line_io emits_copyfile
        emits_git_commit)

lemma emits_push_release:
  "emits (push_release version spec_repo website_repo)
     (([Run spec_repo [''git'', ''push'', ''origin'', ''HEAD'', version]] @
       [Run spec_repo [''git'', ''push'', ''upstream'', ''HEAD'', version]]) @
      (([Run website_repo [''git'', ''push'', ''origin'', ''HEAD'']] @
        [Run website_repo [''git'', ''push'', ''upstream'', ''HEAD'']]) @ []))"
  unfolding push_release_def
  by (intro emits_and_then emits_task emits_run emits_succeed)

subsection \<open>The Repository Inspector only inspects\<close>

lemma inspectsI:
  assumes "\<And>w. files (snd (m w)) = files w"
    and "\<And>w. \<exists>evs. events (snd (m w)) = events w @ evs \<and> list_all is_inspection evs"
    and "\<And>w e. fst (m w) = Inl e \<Longrightarrow> exit_status (Inl e) = 1"
  shows "inspects m"
  unfolding inspects_def using assms by blast

lemma inspects_files: "inspects m \<Longrightarrow> files (snd (m w)) = files w"
  unfolding inspects_def by blast

lemma inspects_events:
  "inspects m \<Longrightarrow> \<exists>evs. events (snd (m w)) = events w @ evs \<and> list_all is_inspection evs"
  unfolding inspects_def by blast

lemma inspects_exit: "inspects m \<Longrightarrow> fst (m w) = Inl e \<Longrightarrow> exit_status (Inl e) = 1"
  unfolding inspects_def by blast

lemma inspects_run:
  assumes "is_inspection (Run dir args)"
  shows "inspects (run args dir)"
proof (rule inspectsI)
  fix w
  show "files (snd (run args dir w)) = files w" by (simp add: run_def Let_def)
  show "\<exists>evs. events (snd (run args dir w)) = events w @ evs \<and> list_all is_inspection evs"
    using assms by (intro exI[of _ "[Run dir args]"]) (simp add: run_def Let_def)
  show "\<And>e. fst (run args dir w) = Inl e \<Longrightarrow> exit_status (Inl e) = 1"
    by (auto simp: run_def Let_def exit_status_def split: if_splits)
qed

lemma inspects_succeed: "inspects (succeed x)"
  by (rule inspectsI) (simp_all add: succeed_def)

lemma inspects_resolve_cwd: "inspects resolve_cwd"
  by (rule inspectsI) (simp_all add: resolve_cwd_def)

lemma inspects_raise: "inspects (raise (AssertionError msg))"
  by (rule inspectsI) (auto simp: raise_def exit_status_def)

lemma inspects_if: "inspects a \<Longrightarrow> inspects b \<Longrightarrow> inspects (if c then a else b)"
  by simp

lemma task_Inl:
  "fst (task message m w) = Inl e \<Longrightarrow>
     (\<exists>e'. fst (m w) = Inl e' \<and> (e = e' \<or> e = SystemExit 1))"
  by (auto simp: task_def split: prod.splits sum.splits error.splits)

lemma inspects_task:
  assumes "inspects m"
  shows "inspects (task message m)"
proof (rule inspectsI)
  fix w
  show "files (snd (task message m w)) = files w"
    using inspects_files[OF assms] by (simp add: task_snd)
  show "\<exists>evs. events (snd (task message m w)) = events w @ evs \<and> list_all is_inspection evs"
    using inspects_events[OF assms] by (simp add: task_snd)
  show "\<And>e. fst (task message m w) = Inl e \<Longrightarrow> exit_status (Inl e) = 1"
  proof -
    fix e
    assume "fst (task message m w) = Inl e"
    then obtain e' where "fst (m w) = Inl e'" "e = e' \<or> e = SystemExit 1"
      using task_Inl by blast
    then show "exit_status (Inl e) = 1"
      using inspects_exit[OF assms, of w e'] by (auto simp: exit_status_def)
  qed
qed

lemma inspects_and_then:
  assumes "inspects m" and "\<And>x. inspects (f x)"
  shows "inspects (and_then m f)"
proof -
  have main: "files (snd (and_then m f w)) = files w
      \<and> (\<exists>evs. events (snd (and_then m f w)) = events w @ evs \<and> list_all is_inspection evs)
      \<and> (\<forall>e. fst (and_then m f w) = Inl e \<longrightarrow> exit_status (Inl e) = 1)" for w
  proof (cases \<open>fst (m w)\<close>)
    case (Inl e)
    then have "and_then m f w = (Inl e, snd (m w))" by (rule and_then_Inl)
    then show ?thesis
      using inspects_files[OF assms(1), of w] inspects_events[OF assms(1), of w]
        inspects_exit[OF assms(1) Inl]
      by simp
  next
    case (Inr x)
    then have at: "and_then m f w = f x (snd (m w))" by (rule and_then_Inr)
    obtain evs1 where e1: "events (snd (m w)) = events w @ evs1" "list_all is_inspection evs1"
      using inspects_events[OF assms(1), of w] by blast
    obtain evs2 where e2: "events (snd (f x (snd (m w)))) = events (snd (m w)) @ evs2"
        "list_all is_inspection evs2"
      using inspects_events[OF assms(2), of x "snd (m w)"] by blast
    have "events (snd (and_then m f w)) = events w @ (evs1 @ evs2)
        \<and> list_all is_inspection (evs1 @ evs2)"
      using at e1 e2 by simp
    then have "\<exists>evs. events (snd (and_then m f w)) = events w @ evs \<and> list_all is_inspection evs"
      by blast
    moreover have "files (snd (and_then m f w)) = files w"
      using at inspects_files[OF assms(1), of w] inspects_files[OF assms(2), of x "snd (m w)"]
      by simp
    moreover have "\<forall>e. fst (and_then m f w) = Inl e \<longrightarrow> exit_status (Inl e) = 1"
      using at inspects_exit[OF assms(2), of x "snd (m w)"] by simp
    ultimately show ?thesis by blast
  qed
  show ?thesis
    unfolding inspects_def using main by blast
qed

lemma inspects_check_repo_state: "inspects (check_repo_state repo name)"
  unfolding check_repo_state_def
  by (intro inspects_and_then inspects_if inspects_raise inspects_succeed inspects_task
        inspects_run) simp_all

lemma inspects_get_repositories: "inspects get_repositories"
  unfolding get_repositories_def Let_def
  by (intro inspects_and_then inspects_task inspects_check_repo_state inspects_succeed
        inspects_resolve_cwd)

lemma inspection_not_mutating: "is_inspection e \<Longrightarrow> \<not> mutating e"
  by (cases e) auto

lemma get_version_error: "get_version args = Inl e \<Longrightarrow> exit_status (Inl e) = 1"
  by (auto simp: get_version_def exit_status_def split: if_splits option.splits)

subsection \<open>Order of the release tag\<close>

text \<open>
  Claim C6. In every world, the effects of \<open>prepare_release\<close> are a first part of the
  sequence below, and the whole sequence when it returns: the backup tags, the release
  edit of the changelog and its commit \<open>Release v<version>\<close>, then the tag \<open><version>\<close> in
  the spec repository, and only then the development edit and its commit
  \<open>Bump for development\<close>, followed by the copy, the title edits and the commit in the
  website repository. So the release tag is created strictly after the first changelog
  commit and strictly before the second changelog edit and commit, at the commit that
  holds the dated heading.
\<close>

theorem release_tag_between_commits:
  "(\<exists>k. events (snd (prepare_release version spec_repo website_repo w))
          = events w @ take k
             [Run spec_repo [''git'', ''tag'', ''-m'', ''backup'', ''backup/'' @ str_int (timestamp w)],
              Run website_repo [''git'', ''tag'', ''-m'', ''backup'', ''backup/'' @ str_int (timestamp w)],
              ChangeLine (joinpath spec_repo ''CHANGELOG.md'') ''## unreleased''
                [''## '' @ version @ '' / '' @ today w],
              Run spec_repo [''git'', ''add'', joinpath spec_repo ''CHANGELOG.md''],
              Run spec_repo [''git'', ''commit'', ''-m'', ''Release v'' @ version],
              Run spec_repo [''git'', ''tag'', ''-m'', ''Release v'' @ version, version],
              ChangeLine (joinpath spec_repo ''CHANGELOG.md'') (''## '' @ version @ '' / '' @ today w)
                [''## unreleased'', [], ''Nothing.'', [], ''## '' @ version @ '' / '' @ today w],
              Run spec_repo [''git'', ''add'', joinpath spec_repo ''CHANGELOG.md''],
              Run spec_repo [''git'', ''commit'', ''-m'', ''Bump for development''],
              CopyFile (joinpath spec_repo ''toml.md'')
                (joinpath (joinpath (joinpath website_repo ''specs'') ''en'') (''v'' @ version @ ''.md'')),
              ChangeLine
                (joinpath (joinpath (joinpath website_repo ''specs'') ''en'') (''v'' @ version @ ''.md''))
                ''TOML'' [''TOML v'' @ version],
              ChangeLine
                (joinpath (joinpath (joinpath website_repo ''specs'') ''en'') (''v'' @ version @ ''.md''))
                ''===='' [replicate (length (''TOML v'' @ version)) CHR ''=''],
              Run website_repo
                [''git'', ''add'',
                 joinpath (joinpath (joinpath website_repo ''specs'') ''en'') (''v'' @ version @ ''.md'')],
              Run website_repo [''git'', ''commit'', ''-m'', ''Release v'' @ version]]
        \<and> (fst (prepare_release version spec_repo website_repo w) = Inr () \<longrightarrow> 14 \<le> k))"
proof -
  have n: "Suc (Suc (Suc (Suc (Suc (Suc (Suc (Suc (Suc (Suc (Suc (Suc (Suc (Suc 0)))))))))))))
      = 14"
    by simp
  show ?thesis
    using emitsD[OF emits_prepare_release_steps,
        of version spec_repo website_repo "''backup/'' @ str_int (timestamp w)" "today w" w]
    by (simp add: prepare_release_def unreleased_heading_def release_heading_def n)
qed

theorem release_tag_between_commits_witness:
  "fst (prepare_release ''1.0.0'' ''/home/u/toml'' ''/home/u/toml.io'' ready_world) = Inr ()
   \<and> events (snd (prepare_release ''1.0.0'' ''/home/u/toml'' ''/home/u/toml.io'' ready_world))
     = [Run ''/home/u/toml'' [''git'', ''tag'', ''-m'', ''backup'', ''backup/1600000000''],
        Run ''/home/u/toml.io'' [''git'', ''tag'', ''-m'', ''backup'', ''backup/1600000000''],
        ChangeLine ''/home/u/toml/CHANGELOG.md'' ''## unreleased'' [''## 1.0.0 / 2020-09-13''],
        Run ''/home/u/toml'' [''git'', ''add'', ''/home/u/toml/CHANGELOG.md''],
        Run ''/home/u/toml'' [''git'', ''commit'', ''-m'', ''Release v1.0.0''],
        Run ''/home/u/toml'' [''git'', ''tag'', ''-m'', ''Release v1.0.0'', ''1.0.0''],
        ChangeLine ''/home/u/toml/CHANGELOG.md'' ''## 1.0.0 / 2020-09-13''
          [''## unreleased'', [], ''Nothing.'', [], ''## 1.0.0 / 2020-09-13''],
        Run ''/home/u/toml'' [''git'', ''add'', ''/home/u/toml/CHANGELOG.md''],
        Run ''/home/u/toml'' [''git'', ''commit'', ''-m'', ''Bump for development''],
        CopyFile ''/home/u/toml/toml.md'' ''/home/u/toml.io/specs/en/v1.0.0.md'',
        ChangeLine ''/home/u/toml.io/specs/en/v1.0.0.md'' ''TOML'' [''TOML v1.0.0''],
        ChangeLine ''/home/u/toml.io/specs/en/v1.0.0.md'' ''===='' [''===========''],
        Run ''/home/u/toml.io'' [''git'', ''add'', ''/home/u/toml.io/specs/en/v1.0.0.md''],
        Run ''/home/u/toml.io'' [''git'', ''commit'', ''-m'', ''Release v1.0.0'']]"
proof -
  have ts: "str_int (timestamp ready_world) = ''1600000000''"
    by (simp add: ready_world_def str_int_def str_nat.simps)
  have ev: "events ready_world = []" "today ready_world = ''2020-09-13''"
    by (simp_all add: ready_world_def)
  have "fst (prepare_release_steps ''1.0.0'' ''/home/u/toml'' ''/home/u/toml.io''
      ''backup/1600000000'' ''2020-09-13'' ready_world) = Inr ()"
    by code_simp
  then have ok:
    "fst (prepare_release ''1.0.0'' ''/home/u/toml'' ''/home/u/toml.io'' ready_world) = Inr ()"
    by (simp add: prepare_release_def ts ev)
  show ?thesis
    using release_tag_between_commits[of "''1.0.0''" "''/home/u/toml''" "''/home/u/toml.io''" ready_world]
      ok
    by (auto simp: ts ev joinpath_def)
qed

subsection \<open>A failed precondition\<close>

lemma main_after_failed_check:
  assumes "fst (get_repositories w) = Inl e"
  shows "main w = (case get_version (argv w) of
                     Inl e0 \<Rightarrow> (Inl e0, w)
                   | Inr version \<Rightarrow> (Inl e, snd (get_repositories w)))"
proof (cases \<open>get_version (argv w)\<close>)
  case (Inl e0)
  then show ?thesis by (simp add: main_def and_then_def)
next
  case (Inr version)
  have "and_then get_repositories f w = (Inl e, snd (get_repositories w))" for f :: "path \<times> path \<Rightarrow> unit action"
    using assms by (rule and_then_Inl)
  then show ?thesis using Inr by (simp add: main_def and_then_def)
qed

text \<open>
  Claim C7. If a precondition check fails for either repository, so that
  \<open>get_repositories\<close> raises, then the run ends with exit status 1, no file has been
  changed, and every command run was one of the inspector's five: reading the upstream
  URL, the branch and the status, updating the remote \<open>upstream\<close> and listing revisions.
  No file edit, copy, \<open>git add\<close>, commit, tag or push has been performed in either
  repository.
\<close>

theorem failed_precondition_aborts:
  assumes "fst (get_repositories w) = Inl e"
  shows "exit_status (fst (main w)) = 1
       \<and> files (snd (main w)) = files w
       \<and> (\<exists>evs. events (snd (main w)) = events w @ evs
              \<and> list_all is_inspection evs
              \<and> list_all (\<lambda>e. \<not> mutating e) evs)"
proof (cases \<open>get_version (argv w)\<close>)
  case (Inl e0)
  then have "main w = (Inl e0, w)" using main_after_failed_check[OF assms] by simp
  then show ?thesis using get_version_error[OF Inl] by simp
next
  case (Inr version)
  then have m: "main w = (Inl e, snd (get_repositories w))"
    using main_after_failed_check[OF assms] by simp
  obtain evs where evs: "events (snd (get_repositories w)) = events w @ evs"
      "list_all is_inspection evs"
    using inspects_events[OF inspects_get_repositories, of w] by blast
  have "list_all (\<lambda>e. \<not> mutating e) evs"
    using evs(2) inspection_not_mutating by (auto simp: list_all_iff)
  then show ?thesis
    using m evs inspects_files[OF inspects_get_repositories, of w]
      inspects_exit[OF inspects_get_repositories assms]
    by auto
qed

theorem failed_precondition_aborts_witness:
  "fst (get_repositories dirty_website_world) = Inl (SystemExit 1)
   \<and> exit_status (fst (main dirty_website_world)) = 1
   \<and> files (snd (main dirty_website_world)) = files dirty_website_world
   \<and> events (snd (main dirty_website_world))
     = [Run ''/home/u/toml'' [''git'', ''config'', ''--get'', ''remote.upstream.url''],
        Run ''/home/u/toml'' [''git'', ''branch'', ''--show-current''],
        Run ''/home/u/toml'' [''git'', ''status'', ''--porcelain''],
        Run ''/home/u/toml'' [''git'', ''remote'', ''update'', ''upstream''],
        Run ''/home/u/toml'' [''git'', ''rev-list'', ''main..upstream/main'', ''--left-right''],
        Run ''/home/u/toml.io'' [''git'', ''config'', ''--get'', ''remote.upstream.url''],
        Run ''/home/u/toml.io'' [''git'', ''branch'', ''--show-current''],
        Run ''/home/u/toml.io'' [''git'', ''status'', ''--porcelain'']]"
proof -
  have f: "fst (get_repositories dirty_website_world) = Inl (SystemExit 1)"
    by code_simp
  have e: "events (snd (main dirty_website_world))
     = [Run ''/home/u/toml'' [''git'', ''config'', ''--get'', ''remote.upstream.url''],
        Run ''/home/u/toml'' [''git'', ''branch'', ''--show-current''],
        Run ''/home/u/toml'' [''git'', ''status'', ''--porcelain''],
        Run ''/home/u/toml'' [''git'', ''remote'', ''update'', ''upstream''],
        Run ''/home/u/toml'' [''git'', ''rev-list'', ''main..upstream/main'', ''--left-right''],
        Run ''/home/u/toml.io'' [''git'', ''config'', ''--get'', ''remote.upstream.url''],
        Run ''/home/u/toml.io'' [''git'', ''branch'', ''--show-current''],
        Run ''/home/u/toml.io'' [''git'', ''status'', ''--porcelain'']]"
    by code_simp
  show ?thesis
    using failed_precondition_aborts[OF f] f e by simp
qed

subsection \<open>What is pushed\<close>

lemma push_release_files: "files (snd (push_release version spec_repo website_repo w)) = files w"
  by (simp add: push_release_def and_then_def task_def run_def succeed_def Let_def
      split: prod.splits sum.splits error.splits)

text \<open>
  Claim C8. In every world, \<open>push_release\<close> changes no file, and its effects are a first
  part of four commands, all four when it returns: in the spec repository a push of
  \<open>HEAD\<close> and of the release tag to \<open>origin\<close> and then to \<open>upstream\<close>, and in the website
  repository a push of \<open>HEAD\<close> alone to \<open>origin\<close> and then to \<open>upstream\<close>. Ref by ref
  these are four pushes for the spec repository and two for the website repository;
  the tag is pushed from the spec repository only.
\<close>

theorem push_release_pushes:
  "files (snd (push_release version spec_repo website_repo w)) = files w
   \<and> (\<exists>k. events (snd (push_release version spec_repo website_repo w))
          = events w @ take k
             [Run spec_repo [''git'', ''push'', ''origin'', ''HEAD'', version],
              Run spec_repo [''git'', ''push'', ''upstream'', ''HEAD'', version],
              Run website_repo [''git'', ''push'', ''origin'', ''HEAD''],
              Run website_repo [''git'', ''push'', ''upstream'', ''HEAD'']]
        \<and> (fst (push_release version spec_repo website_repo w) = Inr () \<longrightarrow> 4 \<le> k))
   \<and> concat (map pushed
        [Run spec_repo [''git'', ''push'', ''origin'', ''HEAD'', version],
         Run spec_repo [''git'', ''push'', ''upstream'', ''HEAD'', version],
         Run website_repo [''git'', ''push'', ''origin'', ''HEAD''],
         Run website_repo [''git'', ''push'', ''upstream'', ''HEAD'']])
     = [(spec_repo, ''origin'', ''HEAD''), (spec_repo, ''origin'', version),
        (spec_repo, ''upstream'', ''HEAD''), (spec_repo, ''upstream'', version),
        (website_repo, ''origin'', ''HEAD''), (website_repo, ''upstream'', ''HEAD'')]"
proof -
  have n: "Suc (Suc (Suc (Suc 0))) = 4" by simp
  have "\<exists>k. events (snd (push_release version spec_repo website_repo w))
          = events w @ take k
             [Run spec_repo [''git'', ''push'', ''origin'', ''HEAD'', version],
              Run spec_repo [''git'', ''push'', ''upstream'', ''HEAD'', version],
              Run website_repo [''git'', ''push'', ''origin'', ''HEAD''],
              Run website_repo [''git'', ''push'', ''upstream'', ''HEAD'']]
        \<and> (fst (push_release version spec_repo website_repo w) = Inr () \<longrightarrow> 4 \<le> k)"
    using emitsD[OF emits_push_release, of version spec_repo website_repo w]
    by (simp add: n)
  then show ?thesis by (simp add: push_release_files)
qed

theorem push_release_pushes_witness:
  "fst (push_release ''1.0.0'' ''/home/u/toml'' ''/home/u/toml.io'' ready_world) = Inr ()
   \<and> events (snd (push_release ''1.0.0'' ''/home/u/toml'' ''/home/u/toml.io'' ready_world))
     = [Run ''/home/u/toml'' [''git'', ''push'', ''origin'', ''HEAD'', ''1.0.0''],
        Run ''/home/u/toml'' [''git'', ''push'', ''upstream'', ''HEAD'', ''1.0.0''],
        Run ''/home/u/toml.io'' [''git'', ''push'', ''origin'', ''HEAD''],
        Run ''/home/u/toml.io'' [''git'', ''push'', ''upstream'', ''HEAD'']]"
proof -
  have ok: "fst (push_release ''1.0.0'' ''/home/u/toml'' ''/home/u/toml.io'' ready_world) = Inr ()"
    by code_simp
  have ev: "events ready_world = []" by (simp add: ready_world_def)
  show ?thesis
    using push_release_pushes[of "''1.0.0''" "''/home/u/toml''" "''/home/u/toml.io''" ready_world] ok
    by (auto simp: ev)
qed

subsection \<open>The check against the remote\<close>

text \<open>
  Claim C1 fails on the code when the local branch is ahead of upstream. The range the
  inspector passes to \<open>git rev-list\<close> is \<open>main..upstream/main\<close>, with two dots: it lists
  the commits of upstream that the local branch lacks, and none here. The symmetric
  difference \<open>main...upstream/main\<close> holds the local commit \<open>c2\<close>, and the check passes
  all the same.
\<close>

theorem check_repo_state_passes_when_ahead:
  "rev_list ahead_repo ''main...upstream/main'' = Some [''<c2'']
   \<and> rev_list ahead_repo ''main..upstream/main'' = Some []
   \<and> fst (check_repo_state ''/home/u/toml'' ''toml'' ahead_world) = Inr ()
   \<and> events (snd (check_repo_state ''/home/u/toml'' ''toml'' ahead_world))
     = [Run ''/home/u/toml'' [''git'', ''config'', ''--get'', ''remote.upstream.url''],
        Run ''/home/u/toml'' [''git'', ''branch'', ''--show-current''],
        Run ''/home/u/toml'' [''git'', ''status'', ''--porcelain''],
        Run ''/home/u/toml'' [''git'', ''remote'', ''update'', ''upstream''],
        Run ''/home/u/toml'' [''git'', ''rev-list'', ''main..upstream/main'', ''--left-right'']]"
  by code_simp

end
